theory Spec2Isabelle
  imports Complex_Main "HOL-Library.Sublist" "HOL-Library.Log_Nat"
begin

section \<open>Data model of the game map\<close>

text \<open>
  The development embeds the parts of \<^verbatim>\<open>source/GameMap.cpp\<close> that path finding,
  line of sight, visibility, flood filling, the turn driver and the treasuries consist of.
  A \<^verbatim>\<open>Tile*\<close> is the pair of the tile's grid coordinates, a \<^verbatim>\<open>Room*\<close> or
  \<^verbatim>\<open>Seat*\<close> is the index of the object in the vector that owns it, and every member
  function takes the map it runs on and returns what it changes.
\<close>

datatype TileClearType = impassableTile | walkableTile | flyableTile | diggableTile

type_synonym tileRef = "int \<times> int"

text \<open>
  The class \<^verbatim>\<open>Tile\<close> is declared outside these sources. A tile carries what
  \<^verbatim>\<open>GameMap.cpp\<close> reads of it: the result of \<^verbatim>\<open>getTilePassability()\<close>, of
  \<^verbatim>\<open>isDiggable(color)\<close> and of \<^verbatim>\<open>permitsVision()\<close>, and the public member
  \<^verbatim>\<open>floodFillColor\<close>.
\<close>

record tile =
  tilePassability :: TileClearType
  isDiggable :: "int \<Rightarrow> bool"
  permitsVision :: bool
  floodFillColor :: int

datatype RoomType = dungeonTemple | treasury | otherRoom

record room =
  roomType :: RoomType
  roomColor :: int
  totalGold :: int

record seat =
  seatColor :: int
  mGold :: int
  mNumCreaturesControlled :: nat

record creature =
  creatureName :: string
  creatureColor :: int
  creatureHP :: real
  isWorker :: bool

record gameMap =
  mMapSizeX :: int
  mMapSizeY :: int
  tiles :: "tileRef \<Rightarrow> tile"
  floodFillEnabled :: bool
  mUniqueNumberFloodFilling :: int
  numCallsTo_path :: nat
  creatures :: "creature list"
  rooms :: "room list"
  seats :: "seat list"
  filledSeats :: "nat list"
  entitiesToDelete :: "string list"
  mapLightsToDelete :: "string list"

text \<open>
  Modelled from the spec: \<^verbatim>\<open>getTile\<close> is defined outside these sources. The tile grid
  is a two-dimensional array of \<^verbatim>\<open>mMapSizeX\<close> by \<^verbatim>\<open>mMapSizeY\<close> cells; a
  coordinate outside the array has no tile (the null pointer, \<open>None\<close>).
\<close>

definition getTile :: "gameMap \<Rightarrow> int \<Rightarrow> int \<Rightarrow> tileRef option" where
  "getTile g x y =
     (if 0 \<le> x \<and> x < mMapSizeX g \<and> 0 \<le> y \<and> y < mMapSizeY g then Some (x, y) else None)"

section \<open>Treasuries\<close>

definition getRoomsByTypeAndColor :: "gameMap \<Rightarrow> RoomType \<Rightarrow> int \<Rightarrow> nat list" where
  "getRoomsByTypeAndColor g ty color =
     filter (\<lambda>i. roomType (rooms g ! i) = ty \<and> roomColor (rooms g ! i) = color)
       [0 ..< length (rooms g)]"

text \<open>
  \<^verbatim>\<open>RoomTreasury::withdrawGold\<close> is defined outside these sources: it is the parameter
  \<open>withdrawGold\<close>, which takes the treasury and the amount asked for and returns the amount
  it handed out and the treasury afterwards.
\<close>

fun withdrawLoop ::
  "(room \<Rightarrow> int \<Rightarrow> int \<times> room) \<Rightarrow> room list \<Rightarrow> nat list \<Rightarrow> int \<Rightarrow> room list" where
  "withdrawLoop withdrawGold rs [] goldStillNeeded = rs"
| "withdrawLoop withdrawGold rs (i # treasuriesOwned) goldStillNeeded =
     (if goldStillNeeded > 0 then
        (case withdrawGold (rs ! i) goldStillNeeded of
           (withdrawn, r) \<Rightarrow>
             withdrawLoop withdrawGold (rs[i := r]) treasuriesOwned (goldStillNeeded - withdrawn))
      else rs)"

definition withdrawFromTreasuries ::
  "(room \<Rightarrow> int \<Rightarrow> int \<times> room) \<Rightarrow> gameMap \<Rightarrow> int \<Rightarrow> seat \<Rightarrow> bool \<times> gameMap" where
  "withdrawFromTreasuries withdrawGold g gold s =
     (if mGold s < gold then (False, g)
      else (True, g\<lparr>rooms := withdrawLoop withdrawGold (rooms g)
                         (getRoomsByTypeAndColor g treasury (seatColor s)) gold\<rparr>))"

text \<open>A treasury that hands out what it has, up to the amount asked for.\<close>

definition withdrawUpTo :: "room \<Rightarrow> int \<Rightarrow> int \<times> room" where
  "withdrawUpTo r gold =
     (let withdrawn = min gold (totalGold r) in (withdrawn, r\<lparr>totalGold := totalGold r - withdrawn\<rparr>))"

definition emptyMap :: gameMap where
  "emptyMap =
     \<lparr>mMapSizeX = 0, mMapSizeY = 0,
      tiles = (\<lambda>p. \<lparr>tilePassability = walkableTile, isDiggable = (\<lambda>c. False),
                     permitsVision = True, floodFillColor = - 1\<rparr>),
      floodFillEnabled = False, mUniqueNumberFloodFilling = 0, numCallsTo_path = 0,
      creatures = [], rooms = [], seats = [], filledSeats = [],
      entitiesToDelete = [], mapLightsToDelete = []\<rparr>"

definition treasuryMap :: gameMap where
  "treasuryMap =
     emptyMap\<lparr>rooms := [\<lparr>roomType = treasury, roomColor = 1, totalGold = 30\<rparr>,
                         \<lparr>roomType = dungeonTemple, roomColor = 1, totalGold = 0\<rparr>,
                         \<lparr>roomType = treasury, roomColor = 1, totalGold = 50\<rparr>]\<rparr>"

section \<open>The turn driver\<close>

definition getRoomsByType :: "gameMap \<Rightarrow> RoomType \<Rightarrow> nat list" where
  "getRoomsByType g ty = filter (\<lambda>i. roomType (rooms g ! i) = ty) [0 ..< length (rooms g)]"

text \<open>
  A \<^verbatim>\<open>std::map<int, int>\<close> that is only read and written through \<^verbatim>\<open>operator[]\<close>
  is a function from keys to counts: a key not yet written reads as zero.
\<close>

definition countColors :: "int list \<Rightarrow> int \<Rightarrow> int" where
  "countColors colors = fold (\<lambda>color m. m(color := m color + 1)) colors (\<lambda>color. 0)"

definition koboldColorCounts :: "gameMap \<Rightarrow> int \<Rightarrow> int" where
  "koboldColorCounts g = countColors (map creatureColor (filter isWorker (creatures g)))"

definition dungeonTempleColors :: "gameMap \<Rightarrow> int list" where
  "dungeonTempleColors g = map (\<lambda>i. roomColor (rooms g ! i)) (getRoomsByType g dungeonTemple)"

definition dungeonTempleColorCounts :: "gameMap \<Rightarrow> int \<Rightarrow> int" where
  "dungeonTempleColorCounts g = countColors (dungeonTempleColors g)"

text \<open>
  The loop over \<^verbatim>\<open>dungeonTempleColorCounts\<close> visits the keys of the map, the colors
  that own a dungeon temple, in increasing order.
\<close>

definition koboldsNeededPerColor :: "gameMap \<Rightarrow> int \<Rightarrow> int" where
  "koboldsNeededPerColor g =
     fold (\<lambda>color m.
             let numDungeonTemples = dungeonTempleColorCounts g color;
                 numKobolds = koboldColorCounts g color;
                 numKoboldsNeeded = max (4 * numDungeonTemples - numKobolds) 0
             in m(color := min numKoboldsNeeded numDungeonTemples))
          (sort (remdups (dungeonTempleColors g))) (\<lambda>color. 0)"

text \<open>
  \<^verbatim>\<open>RoomDungeonTemple::produceKobold\<close> is defined outside these sources. The loop over
  the dungeon temples returns the temples it calls \<^verbatim>\<open>produceKobold\<close> on, in the order
  of the calls.
\<close>

fun produceLoop :: "gameMap \<Rightarrow> nat list \<Rightarrow> (int \<Rightarrow> int) \<Rightarrow> nat list" where
  "produceLoop g [] needed = []"
| "produceLoop g (i # dungeonTemples) needed =
     (let color = roomColor (rooms g ! i) in
      if needed color > 0
      then i # produceLoop g dungeonTemples (needed(color := needed color - 1))
      else produceLoop g dungeonTemples needed)"

definition koboldSpawns :: "gameMap \<Rightarrow> nat list" where
  "koboldSpawns g = produceLoop g (getRoomsByType g dungeonTemple) (koboldsNeededPerColor g)"

text \<open>
  Of \<^verbatim>\<open>doMiscUpkeep\<close> the embedding keeps the steps that act on the creature counters
  of the seats and on the worker quota: every filled seat's \<^verbatim>\<open>mNumCreaturesControlled\<close>
  is set to zero, and the dungeon temples are told to produce workers. Goal checking, the
  upkeep of the active objects, the removal of empty rooms, mana, gold and the count of
  claimed tiles act on state that is not part of this model.
\<close>

definition resetCreaturesControlled :: "gameMap \<Rightarrow> gameMap" where
  "resetCreaturesControlled g =
     g\<lparr>seats := fold (\<lambda>i ss. ss[i := (ss ! i)\<lparr>mNumCreaturesControlled := 0\<rparr>])
                      (filledSeats g) (seats g)\<rparr>"

definition doMiscUpkeep :: "gameMap \<Rightarrow> gameMap \<times> nat list" where
  "doMiscUpkeep g = (let g1 = resetCreaturesControlled g in (g1, koboldSpawns g1))"

text \<open>
  \<^verbatim>\<open>Creature::doTurn\<close> and \<^verbatim>\<open>Creature::getControllingPlayer\<close> are defined outside
  these sources. The first is the parameter \<open>creatureDoTurn\<close>, which takes the index of the
  creature; the second, followed by \<^verbatim>\<open>Player::getSeat\<close>, is the parameter
  \<open>controllingSeat\<close>, which returns no seat when the creature has no controlling player.
\<close>

definition doCreatureTurns :: "(nat \<Rightarrow> gameMap \<Rightarrow> gameMap) \<Rightarrow> gameMap \<Rightarrow> gameMap" where
  "doCreatureTurns creatureDoTurn g = fold creatureDoTurn [0 ..< length (creatures g)] g"

function deadCreatureSweep :: "(creature \<Rightarrow> nat option) \<Rightarrow> gameMap \<Rightarrow> nat \<Rightarrow> gameMap" where
  "deadCreatureSweep controllingSeat g cptCreature =
     (if cptCreature < length (creatures g) then
        (let tempCreature = creatures g ! cptCreature in
         if creatureHP tempCreature > 0 then
           (case controllingSeat tempCreature of
              Some tempSeat \<Rightarrow>
                deadCreatureSweep controllingSeat
                  (g\<lparr>seats := (seats g)[tempSeat := (seats g ! tempSeat)
                      \<lparr>mNumCreaturesControlled := Suc (mNumCreaturesControlled (seats g ! tempSeat))\<rparr>]\<rparr>)
                  (cptCreature + 1)
            | None \<Rightarrow> deadCreatureSweep controllingSeat g (cptCreature + 1))
         else deadCreatureSweep controllingSeat g (cptCreature + 1))
      else g)"
  by pat_completeness auto
termination
  by (relation "measure (\<lambda>(controllingSeat, g, cptCreature). length (creatures g) - cptCreature)")
     auto

definition doTurn ::
  "(nat \<Rightarrow> gameMap \<Rightarrow> gameMap) \<Rightarrow> (creature \<Rightarrow> nat option) \<Rightarrow> gameMap \<Rightarrow> gameMap \<times> nat list" where
  "doTurn creatureDoTurn controllingSeat g =
     (case doMiscUpkeep (doCreatureTurns creatureDoTurn g) of
        (g2, spawns) \<Rightarrow> (deadCreatureSweep controllingSeat g2 0, spawns))"

definition processDeletionQueues :: "gameMap \<Rightarrow> gameMap" where
  "processDeletionQueues g = g\<lparr>entitiesToDelete := [], mapLightsToDelete := []\<rparr>"


declare deadCreatureSweep.simps [simp del]


section \<open>Line of sight and corner cutting\<close>

text \<open>
  The loop \<^verbatim>\<open>for (int x = x0; x != x1; x += xstep)\<close> of \<^verbatim>\<open>lineOfSight\<close>. It ends
  when \<open>x\<close> meets \<open>x1\<close>; the function is partial, and lemma
  \<open>lineOfSight_returns\<close> below shows that every call of \<^verbatim>\<open>lineOfSight\<close> returns.
  Coordinates are mathematical integers: the arithmetic of the C++ \<^verbatim>\<open>int\<close> agrees
  with them as long as the coordinates stay below \<open>2^29\<close> in absolute value.
\<close>

partial_function (option) lineOfSightLoop ::
  "gameMap \<Rightarrow> bool \<Rightarrow> int \<Rightarrow> int \<Rightarrow> int \<Rightarrow> int \<Rightarrow> int \<Rightarrow> int \<Rightarrow> int \<Rightarrow> int \<Rightarrow>
   tileRef list \<Rightarrow> tileRef list option" where
  "lineOfSightLoop g steep x1 xstep ystep TwoDy TwoDyTwoDx x y E path =
     (if x = x1 then Some path
      else
        let xDraw = (if steep then y else x); yDraw = (if steep then x else y) in
        case getTile g xDraw yDraw of
          None \<Rightarrow> Some []
        | Some currentTile \<Rightarrow>
            if E > 0 then
              (case getTile g (xDraw + 1) y of
                 None \<Rightarrow> Some []
               | Some nextTile \<Rightarrow>
                   lineOfSightLoop g steep x1 xstep ystep TwoDy TwoDyTwoDx
                     (x + xstep) (y + ystep) (E + TwoDyTwoDx) (path @ [currentTile, nextTile]))
            else
              lineOfSightLoop g steep x1 xstep ystep TwoDy TwoDyTwoDx
                (x + xstep) y (E + TwoDy) (path @ [currentTile]))"

declare lineOfSightLoop.simps [code]

definition lineOfSight :: "gameMap \<Rightarrow> int \<Rightarrow> int \<Rightarrow> int \<Rightarrow> int \<Rightarrow> tileRef list option" where
  "lineOfSight g x0 y0 x1 y1 =
     (let steep = (\<bar>y1 - y0\<bar> \<ge> \<bar>x1 - x0\<bar>);
          (x0, y0, x1, y1) = (if steep then (y0, x0, y1, x1) else (x0, y0, x1, y1));
          Dx = x1 - x0;
          Dy = y1 - y0;
          xstep = (if Dx < 0 then - 1 else 1);
          Dx = (if Dx < 0 then - Dx else Dx);
          ystep = (if Dy < 0 then - 1 else 1);
          Dy = (if Dy < 0 then - Dy else Dy);
          TwoDy = 2 * Dy;
          TwoDyTwoDx = TwoDy - 2 * Dx;
          E = TwoDy - Dx
      in lineOfSightLoop g steep x1 xstep ystep TwoDy TwoDyTwoDx x0 y0 E [])"

text \<open>A map of the given size on which every tile is walkable and lets light through.\<close>

definition openMap :: "int \<Rightarrow> int \<Rightarrow> gameMap" where
  "openMap sx sy = emptyMap\<lparr>mMapSizeX := sx, mMapSizeY := sy\<rparr>"

lemma openMap_simps [simp]: "mMapSizeX (openMap sx sy) = sx" "mMapSizeY (openMap sx sy) = sy"
  by (simp_all add: openMap_def)


text \<open>
  \<^verbatim>\<open>pathIsClear\<close> ends the process with \<^verbatim>\<open>exit(1)\<close> when the loop meets a
  passability class the \<^verbatim>\<open>switch\<close> does not handle. A call that does not return is
  \<open>None\<close>.
\<close>

fun pathIsClearLoop :: "gameMap \<Rightarrow> TileClearType \<Rightarrow> tileRef list \<Rightarrow> bool option" where
  "pathIsClearLoop g passability [] = Some True"
| "pathIsClearLoop g passability (t # rest) =
     (case passability of
        walkableTile \<Rightarrow>
          if tilePassability (tiles g t) = walkableTile
          then pathIsClearLoop g passability rest else Some False
      | flyableTile \<Rightarrow>
          if tilePassability (tiles g t) = walkableTile \<or> tilePassability (tiles g t) = flyableTile
          then pathIsClearLoop g passability rest else Some False
      | impassableTile \<Rightarrow> Some False
      | diggableTile \<Rightarrow> None)"

definition pathIsClear :: "gameMap \<Rightarrow> tileRef list \<Rightarrow> TileClearType \<Rightarrow> bool option" where
  "pathIsClear g path passability =
     (if path = [] then Some False else pathIsClearLoop g passability path)"

text \<open>
  \<^verbatim>\<open>cutCorners\<close> walks the list with iterators. An iterator is the position of its
  element in the list, \<^verbatim>\<open>path.end()\<close> is the length of the list, and
  \<^verbatim>\<open>path.erase(t3, t4)\<close> removes the positions from \<open>t3\<close> up to, not including,
  \<open>t4\<close>; the iterator \<open>t2\<close> stays on its element, whose position drops by the number of
  elements removed before it.
\<close>

function advanceT2 ::
  "gameMap \<Rightarrow> TileClearType \<Rightarrow> tileRef list \<Rightarrow> nat \<Rightarrow> nat \<Rightarrow> nat option" where
  "advanceT2 g passability path t1 t2 =
     (if t2 < length path then
        (case lineOfSight g (fst (path ! t1)) (snd (path ! t1)) (fst (path ! t2)) (snd (path ! t2)) of
           None \<Rightarrow> None
         | Some lineOfSightPath \<Rightarrow>
             (case pathIsClear g lineOfSightPath passability of
                None \<Rightarrow> None
              | Some clear \<Rightarrow>
                  if clear then advanceT2 g passability path t1 (t2 + 1) else Some t2))
      else Some t2)"
  by pat_completeness auto
termination
  by (relation "measure (\<lambda>(g, passability, path, t1, t2). length path - t2)") auto

declare advanceT2.simps [simp del]

lemma advanceT2_bounds:
  "advanceT2 g passability path t1 t2 = Some t \<Longrightarrow> t2 \<le> t \<and> (t \<le> length path \<or> t = t2)"
proof (induction g passability path t1 t2 rule: advanceT2.induct)
  case (1 g passability path t1 t2)
  show ?case
  proof (cases "t2 < length path")
    case False
    with "1.prems" show ?thesis by (simp add: advanceT2.simps[of g passability path t1 t2])
  next
    case True
    with "1.prems" "1.IH" show ?thesis
      by (subst (asm) advanceT2.simps) (fastforce split: option.splits if_splits)
  qed
qed

definition erase :: "'a list \<Rightarrow> nat \<Rightarrow> nat \<Rightarrow> 'a list" where
  "erase xs t3 t4 = take t3 xs @ drop t4 xs"

function cutCornersLoop ::
  "gameMap \<Rightarrow> TileClearType \<Rightarrow> tileRef list \<Rightarrow> nat \<Rightarrow> tileRef list option" where
  "cutCornersLoop g passability path t1 =
     (if t1 < length path then
        (case advanceT2 g passability path t1 (t1 + 1) of
           None \<Rightarrow> None
         | Some t2 \<Rightarrow>
             (let t3 = t1 + 1 in
              if t3 \<noteq> t2 then
                (let t4 = t2 - 1 in
                 if t3 \<noteq> t4
                 then cutCornersLoop g passability (erase path t3 t4) (t2 - (t4 - t3))
                 else cutCornersLoop g passability path t2)
              else cutCornersLoop g passability path t2))
      else Some path)"
  by pat_completeness auto
termination
proof (relation "measure (\<lambda>(g, passability, path, t1). length path - t1)", goal_cases)
  case 1
  then show ?case by simp
next
  case (2 g passability path t1 t2 t3 t4)
  with advanceT2_bounds[of g passability path t1 "t1 + 1" t2] show ?case
    by (auto simp: erase_def)
next
  case (3 g passability path t1 t2 t3 t4)
  with advanceT2_bounds[of g passability path t1 "t1 + 1" t2] show ?case
    by auto
next
  case (4 g passability path t1 t2 t3)
  with advanceT2_bounds[of g passability path t1 "t1 + 1" t2] show ?case
    by auto
qed

declare cutCornersLoop.simps [simp del]

definition cutCorners :: "gameMap \<Rightarrow> tileRef list \<Rightarrow> TileClearType \<Rightarrow> tileRef list option" where
  "cutCorners g path passability =
     (if length path \<le> 3 then Some path else cutCornersLoop g passability path 0)"

section \<open>Visible tiles\<close>

text \<open>
  Modelled from the spec: the class \<^verbatim>\<open>TileCoordinateMap\<close> is defined outside these
  sources. It is a precomputed list, in spiral order, of offsets relative to the origin with
  the squared radius and the polar angle of each, out to a maximum radius. The list is a
  parameter of \<^verbatim>\<open>visibleTiles\<close>; a query that reads beyond its end returns nothing
  (\<open>None\<close>). The angles are real numbers.
\<close>

record coordEntry =
  coordinate :: "int \<times> int"
  radiusSquared :: int
  centralTheta :: real

fun collectTileQueue ::
  "gameMap \<Rightarrow> coordEntry list \<Rightarrow> int \<Rightarrow> int \<Rightarrow> int \<Rightarrow> (tileRef \<times> real) list option" where
  "collectTileQueue g [] startX startY sightRadiusSquared = None"
| "collectTileQueue g (e # tileCoordinateMap) startX startY sightRadiusSquared =
     (if radiusSquared e > sightRadiusSquared then Some []
      else
        (case collectTileQueue g tileCoordinateMap startX startY sightRadiusSquared of
           None \<Rightarrow> None
         | Some tileQueue \<Rightarrow>
             (case getTile g (startX + fst (coordinate e)) (startY + snd (coordinate e)) of
                None \<Rightarrow> Some tileQueue
              | Some tempTile \<Rightarrow> Some ((tempTile, centralTheta e) # tileQueue))))"

text \<open>
  The class \<^verbatim>\<open>RadialVector2\<close> is defined outside these sources. The parameter
  \<open>directionIsObscured\<close> stands for lines 1306 to 1327: it takes the offset of the
  obstructing tile from the start tile and the angle of a queued tile, and tells whether the
  angle lies in the wedge the obstructing tile hides.
\<close>

fun processTileQueue ::
  "(int \<Rightarrow> int \<Rightarrow> real \<Rightarrow> bool) \<Rightarrow> gameMap \<Rightarrow> tileRef \<Rightarrow> (tileRef \<times> real) list \<Rightarrow> tileRef list" where
  "processTileQueue directionIsObscured g startTile [] = []"
| "processTileQueue directionIsObscured g startTile ((t, theta) # tileQueue) =
     (if permitsVision (tiles g t)
      then t # processTileQueue directionIsObscured g startTile tileQueue
      else t # processTileQueue directionIsObscured g startTile
                 (filter (\<lambda>(t', theta').
                      \<not> directionIsObscured (fst t - fst startTile) (snd t - snd startTile) theta')
                    tileQueue))"

text \<open>
  The sight radius is a \<^verbatim>\<open>double\<close>. A finite double is modelled by its value, a real
  number; the infinities and the values that are not numbers are not modelled. The product
  \<^verbatim>\<open>sightRadius * sightRadius\<close> is the exact product rounded to the nearest double, ties
  to the even significand, as the arithmetic of the 64-bit binary format does. A double has
  53 bits of significand: in the binade of exponent \<open>e\<close>, from \<open>2 ^ e\<close> up to
  \<open>2 ^ (e + 1)\<close>, the doubles are the multiples of \<open>2 ^ (e - 52)\<close>. The smallest exponent
  is \<open>- 1022\<close>, and below \<open>2 ^ (- 1022)\<close> the doubles keep the spacing of that binade. A
  product beyond the largest double is infinite in the code; here it is a finite value far
  beyond the range of \<^verbatim>\<open>int\<close>, which the cast treats in the same way.
\<close>

definition binade :: "real \<Rightarrow> int" where
  "binade x = max (- 1022) \<lfloor>log 2 \<bar>x\<bar>\<rfloor>"

definition roundHalfEven :: "real \<Rightarrow> int" where
  "roundHalfEven y =
     (let f = \<lfloor>y\<rfloor> in
      if y - of_int f < 1 / 2 then f
      else if 1 / 2 < y - of_int f then f + 1
      else if even f then f else f + 1)"

definition roundToDouble :: "real \<Rightarrow> real" where
  "roundToDouble x =
     (if x = 0 then 0
      else of_int (roundHalfEven (x / 2 powi (binade x - 52))) * 2 powi (binade x - 52))"

text \<open>
  The cast \<^verbatim>\<open>(int)\<close> of a double truncates towards zero. The language leaves the cast
  undefined when the truncated value does not fit the 32-bit \<^verbatim>\<open>int\<close>; the conversion
  instruction of the x86 processors, which the compilers emit for the cast, then yields the
  smallest \<^verbatim>\<open>int\<close>, \<open>- 2 ^ 31\<close>, and so does \<open>castToInt\<close>.
\<close>

definition truncToInt :: "real \<Rightarrow> int" where
  "truncToInt v = (if 0 \<le> v then \<lfloor>v\<rfloor> else \<lceil>v\<rceil>)"

definition castToInt :: "real \<Rightarrow> int" where
  "castToInt v =
     (let t = truncToInt v in if - (2 ^ 31) \<le> t \<and> t < 2 ^ 31 then t else - (2 ^ 31))"

definition visibleTiles ::
  "coordEntry list \<Rightarrow> (int \<Rightarrow> int \<Rightarrow> real \<Rightarrow> bool) \<Rightarrow> gameMap \<Rightarrow> tileRef \<Rightarrow> real \<Rightarrow>
   tileRef list option" where
  "visibleTiles tileCoordinateMap directionIsObscured g startTile sightRadius =
     (if \<not> permitsVision (tiles g startTile) then Some []
      else
        (case collectTileQueue g tileCoordinateMap (fst startTile) (snd startTile)
                (castToInt (roundToDouble (sightRadius * sightRadius))) of
           None \<Rightarrow> None
         | Some tileQueue \<Rightarrow> Some (processTileQueue directionIsObscured g startTile tileQueue)))"

text \<open>The offsets of squared radius at most four, and one entry beyond them.\<close>

definition spiralTable :: "coordEntry list" where
  "spiralTable =
     [\<lparr>coordinate = (0, 0), radiusSquared = 0, centralTheta = 0\<rparr>,
      \<lparr>coordinate = (1, 0), radiusSquared = 1, centralTheta = 0\<rparr>,
      \<lparr>coordinate = (0, 1), radiusSquared = 1, centralTheta = pi / 2\<rparr>,
      \<lparr>coordinate = (- 1, 0), radiusSquared = 1, centralTheta = pi\<rparr>,
      \<lparr>coordinate = (0, - 1), radiusSquared = 1, centralTheta = 3 * pi / 2\<rparr>,
      \<lparr>coordinate = (1, 1), radiusSquared = 2, centralTheta = pi / 4\<rparr>,
      \<lparr>coordinate = (- 1, 1), radiusSquared = 2, centralTheta = 3 * pi / 4\<rparr>,
      \<lparr>coordinate = (- 1, - 1), radiusSquared = 2, centralTheta = 5 * pi / 4\<rparr>,
      \<lparr>coordinate = (1, - 1), radiusSquared = 2, centralTheta = 7 * pi / 4\<rparr>,
      \<lparr>coordinate = (2, 0), radiusSquared = 4, centralTheta = 0\<rparr>,
      \<lparr>coordinate = (0, 2), radiusSquared = 4, centralTheta = pi / 2\<rparr>,
      \<lparr>coordinate = (- 2, 0), radiusSquared = 4, centralTheta = pi\<rparr>,
      \<lparr>coordinate = (0, - 2), radiusSquared = 4, centralTheta = 3 * pi / 2\<rparr>,
      \<lparr>coordinate = (2, 1), radiusSquared = 5, centralTheta = arctan (1 / 2)\<rparr>]"

section \<open>Connectivity check and path finding\<close>

text \<open>
  Modelled from the spec: \<^verbatim>\<open>neighborTiles\<close> and \<^verbatim>\<open>Tile::getAllNeighbors\<close> are
  defined outside these sources. The neighbors of a tile are the tiles of the grid next to
  it in its row and in its column; no claim depends on the order in which they are listed.
\<close>

definition neighborTiles :: "gameMap \<Rightarrow> int \<Rightarrow> int \<Rightarrow> tileRef list" where
  "neighborTiles g x y =
     (case getTile g x y of
        None \<Rightarrow> []
      | Some t \<Rightarrow>
          List.map_filter (\<lambda>(a, b). getTile g a b) [(x - 1, y), (x + 1, y), (x, y - 1), (x, y + 1)])"

definition getAllNeighbors :: "gameMap \<Rightarrow> tileRef \<Rightarrow> tileRef list" where
  "getAllNeighbors g t = neighborTiles g (fst t) (snd t)"

definition walkablePathExists :: "gameMap \<Rightarrow> int \<Rightarrow> int \<Rightarrow> int \<Rightarrow> int \<Rightarrow> bool" where
  "walkablePathExists g x1 y1 x2 y2 =
     (case getTile g x1 y1 of
        Some tempTile1 \<Rightarrow>
          (case getTile g x2 y2 of
             Some tempTile2 \<Rightarrow> floodFillColor (tiles g tempTile1) = floodFillColor (tiles g tempTile2)
           | None \<Rightarrow> False)
      | None \<Rightarrow> False)"

text \<open>
  The helper class \<^verbatim>\<open>AstarEntry\<close>. The entries of a search live on the heap: the list
  \<open>entries\<close> holds them in the order of their allocation, an \<^verbatim>\<open>AstarEntry*\<close> is the
  position of the entry in that list, and a null parent is \<open>None\<close>. The costs \<open>g\<close> and
  \<open>h\<close> are doubles that only ever hold whole numbers; they are integers here.
\<close>

record AstarEntry =
  entryTile :: "tileRef option"
  entryParent :: "nat option"
  entryG :: int
  entryH :: int

definition setHeuristic :: "AstarEntry \<Rightarrow> int \<Rightarrow> int \<Rightarrow> int \<Rightarrow> int \<Rightarrow> AstarEntry" where
  "setHeuristic e x1 y1 x2 y2 = e\<lparr>entryH := \<bar>x2 - x1\<bar> + \<bar>y2 - y1\<bar>\<rparr>"

definition fCost :: "AstarEntry \<Rightarrow> int" where
  "fCost e = entryG e + entryH e"

text \<open>
  The local state of \<^verbatim>\<open>path\<close>: the heap of entries, the open and the closed list, and
  the scratch entry \<^verbatim>\<open>neighbor\<close>, which is allocated once and copied into the open list.
\<close>

record astarSearch =
  entries :: "AstarEntry list"
  openList :: "nat list"
  closedList :: "nat list"
  neighbor :: AstarEntry

text \<open>
  The scan for the entry of lowest cost returns a position in the open list; the first of
  several entries of the same cost wins.
\<close>

definition smallestAstar :: "AstarEntry list \<Rightarrow> nat list \<Rightarrow> nat" where
  "smallestAstar es ol =
     fold (\<lambda>itr smallest. if fCost (es ! (ol ! itr)) < fCost (es ! (ol ! smallest)) then itr else smallest)
       [0 ..< length ol] 0"

text \<open>
  The \<^verbatim>\<open>switch\<close> over the passability class. The case \<^verbatim>\<open>impassableTile\<close> leaves
  \<^verbatim>\<open>processNeighbor\<close> set.
\<close>

definition neighborPassable :: "gameMap \<Rightarrow> TileClearType \<Rightarrow> int \<Rightarrow> tileRef \<Rightarrow> bool" where
  "neighborPassable g passability color n =
     (case passability of
        walkableTile \<Rightarrow> tilePassability (tiles g n) = walkableTile
      | flyableTile \<Rightarrow>
          tilePassability (tiles g n) = walkableTile \<or> tilePassability (tiles g n) = flyableTile
      | diggableTile \<Rightarrow>
          tilePassability (tiles g n) = walkableTile \<or> isDiggable (tiles g n) color
      | impassableTile \<Rightarrow> True)"

text \<open>
  The body of the loop over the neighbors of the current tile, for one neighbor. When the
  neighbor is on neither list, the call \<^verbatim>\<open>setHeuristic\<close> of line 998 is made on
  \<^verbatim>\<open>currentEntry\<close>, with the start coordinates and the neighbor's.
\<close>

definition processNeighbor ::
  "gameMap \<Rightarrow> TileClearType \<Rightarrow> int \<Rightarrow> int \<Rightarrow> int \<Rightarrow> nat \<Rightarrow> tileRef \<Rightarrow> astarSearch \<Rightarrow> astarSearch" where
  "processNeighbor g passability color x1 y1 currentEntry n s0 =
     (let s = s0\<lparr>neighbor := (neighbor s0)\<lparr>entryTile := Some n\<rparr>\<rparr> in
      if \<not> neighborPassable g passability color n then s
      else if list_ex (\<lambda>e. entryTile (entries s ! e) = Some n) (closedList s) then s
      else
        (case find (\<lambda>e. entryTile (entries s ! e) = Some n) (openList s) of
           None \<Rightarrow>
             (let nb = (neighbor s)\<lparr>entryG := entryG (entries s ! currentEntry) + 1\<rparr>;
                  es = (entries s)[currentEntry :=
                         setHeuristic (entries s ! currentEntry) x1 y1 (fst n) (snd n)];
                  nb = nb\<lparr>entryParent := Some currentEntry\<rparr>
              in s\<lparr>neighbor := nb, entries := es @ [nb], openList := openList s @ [length es]\<rparr>)
         | Some itr \<Rightarrow>
             if entryG (entries s ! currentEntry) + 1 < entryG (entries s ! itr)
             then s\<lparr>entries := (entries s)[itr := (entries s ! itr)
                        \<lparr>entryG := entryG (entries s ! currentEntry) + 1,
                         entryParent := Some currentEntry\<rparr>]\<rparr>
             else s))"

definition takeSmallest :: "astarSearch \<Rightarrow> nat \<times> astarSearch" where
  "takeSmallest s =
     (let i = smallestAstar (entries s) (openList s);
          currentEntry = openList s ! i
      in (currentEntry,
          s\<lparr>openList := take i (openList s) @ drop (Suc i) (openList s),
            closedList := closedList s @ [currentEntry]\<rparr>))"

definition expand ::
  "gameMap \<Rightarrow> TileClearType \<Rightarrow> int \<Rightarrow> int \<Rightarrow> int \<Rightarrow> nat \<Rightarrow> tileRef \<Rightarrow> astarSearch \<Rightarrow> astarSearch" where
  "expand g passability color x1 y1 currentEntry t s =
     fold (processNeighbor g passability color x1 y1 currentEntry) (getAllNeighbors g t) s"

text \<open>
  The search loop \<^verbatim>\<open>while (true)\<close>. It returns whether the path was found, and the
  lists. The function is partial: a loop that runs forever is \<open>None\<close>.
\<close>

partial_function (option) astarLoop ::
  "gameMap \<Rightarrow> TileClearType \<Rightarrow> int \<Rightarrow> int \<Rightarrow> int \<Rightarrow> tileRef \<Rightarrow> astarSearch \<Rightarrow>
   (bool \<times> astarSearch) option" where
  "astarLoop g passability color x1 y1 destination s =
     (if openList s = [] then Some (False, s)
      else
        (case takeSmallest s of
           (currentEntry, s1) \<Rightarrow>
             (case entryTile (entries s1 ! currentEntry) of
                None \<Rightarrow> None
              | Some t \<Rightarrow>
                  if t = destination then Some (True, s1)
                  else astarLoop g passability color x1 y1 destination
                         (expand g passability color x1 y1 currentEntry t s1))))"

declare astarLoop.simps [code]

text \<open>
  The \<^verbatim>\<open>do ... while (currentEntry != NULL)\<close> loop that follows the parents back to the
  start. An entry without a tile would keep the loop on that entry forever.
\<close>

partial_function (option) followParents ::
  "AstarEntry list \<Rightarrow> nat \<Rightarrow> tileRef list \<Rightarrow> tileRef list option" where
  "followParents es currentEntry returnList =
     (case entryTile (es ! currentEntry) of
        None \<Rightarrow> followParents es currentEntry returnList
      | Some t \<Rightarrow>
          (case entryParent (es ! currentEntry) of
             None \<Rightarrow> Some (t # returnList)
           | Some p \<Rightarrow> followParents es p (t # returnList)))"

declare followParents.simps [code]

definition startSearch :: "tileRef \<Rightarrow> int \<Rightarrow> int \<Rightarrow> int \<Rightarrow> int \<Rightarrow> astarSearch" where
  "startSearch startTile x1 y1 x2 y2 =
     \<lparr>entries = [setHeuristic \<lparr>entryTile = Some startTile, entryParent = None,
                               entryG = 0, entryH = 0\<rparr> x1 y1 x2 y2],
      openList = [0], closedList = [],
      neighbor = \<lparr>entryTile = None, entryParent = None, entryG = 0, entryH = 0\<rparr>\<rparr>"

text \<open>
  \<^verbatim>\<open>path\<close> returns the map, of which it changes the counter \<^verbatim>\<open>numCallsTo_path\<close>
  (an \<^verbatim>\<open>unsigned int\<close>) only, and the list of tiles.
\<close>

definition path ::
  "gameMap \<Rightarrow> int \<Rightarrow> int \<Rightarrow> int \<Rightarrow> int \<Rightarrow> TileClearType \<Rightarrow> int \<Rightarrow> (gameMap \<times> tileRef list) option" where
  "path g0 x1 y1 x2 y2 passability color =
     (let g = g0\<lparr>numCallsTo_path := (numCallsTo_path g0 + 1) mod 2 ^ 32\<rparr> in
      case getTile g x1 y1 of
        None \<Rightarrow> Some (g, [])
      | Some startTile \<Rightarrow>
          if floodFillEnabled g \<and> passability = walkableTile \<and> \<not> walkablePathExists g x1 y1 x2 y2
          then Some (g, [])
          else
            (case getTile g x2 y2 of
               None \<Rightarrow> Some (g, [])
             | Some destination \<Rightarrow>
                 (case astarLoop g passability color x1 y1 destination
                         (startSearch startTile x1 y1 x2 y2) of
                    None \<Rightarrow> None
                  | Some (pathFound, s) \<Rightarrow>
                      if pathFound then
                        (case find (\<lambda>e. entryTile (entries s ! e) = Some destination) (closedList s) of
                           None \<Rightarrow> None
                         | Some itr \<Rightarrow>
                             (case followParents (entries s) itr [] of
                                None \<Rightarrow> None
                              | Some returnList \<Rightarrow> Some (g, returnList)))
                      else Some (g, []))))"

definition pathExists ::
  "gameMap \<Rightarrow> int \<Rightarrow> int \<Rightarrow> int \<Rightarrow> int \<Rightarrow> TileClearType \<Rightarrow> int \<Rightarrow> (gameMap \<times> bool) option" where
  "pathExists g x1 y1 x2 y2 passability color =
     (if passability = walkableTile then Some (g, walkablePathExists g x1 y1 x2 y2)
      else
        (case path g x1 y1 x2 y2 passability color of
           None \<Rightarrow> None
         | Some (g', p) \<Rightarrow> Some (g', length p \<ge> 2)))"

text \<open>
  A list of tiles in which every two consecutive tiles are neighbors of each other.
\<close>

fun neighborChain :: "gameMap \<Rightarrow> tileRef list \<Rightarrow> bool" where
  "neighborChain g [] = True"
| "neighborChain g [t] = True"
| "neighborChain g (a # b # rest) =
     (b \<in> set (getAllNeighbors g a) \<and> a \<in> set (getAllNeighbors g b) \<and> neighborChain g (b # rest))"

text \<open>The coordinates that have a tile.\<close>

definition inGrid :: "gameMap \<Rightarrow> tileRef \<Rightarrow> bool" where
  "inGrid g t = (0 \<le> fst t \<and> fst t < mMapSizeX g \<and> 0 \<le> snd t \<and> snd t < mMapSizeY g)"

text \<open>
  The invariant of the search. Every entry on the open or the closed list is an allocated
  entry with a tile; an entry without parent is on the start tile, and the parent of any
  other entry is on the closed list, on a tile of which the entry's tile is a neighbor. The
  open list has no repetition and shares no entry with the closed list, and the parent of
  an entry on the closed list stands before it on that list.
\<close>

definition linked :: "gameMap \<Rightarrow> tileRef \<Rightarrow> AstarEntry list \<Rightarrow> nat list \<Rightarrow> nat \<Rightarrow> bool" where
  "linked g start es cl e \<longleftrightarrow>
     e < length es \<and>
     (case entryParent (es ! e) of
        None \<Rightarrow> entryTile (es ! e) = Some start
      | Some p \<Rightarrow> p \<in> set cl \<and>
          (\<exists>t tp. entryTile (es ! e) = Some t \<and> entryTile (es ! p) = Some tp \<and>
                   t \<in> set (getAllNeighbors g tp)))"

definition searchInv :: "gameMap \<Rightarrow> tileRef \<Rightarrow> astarSearch \<Rightarrow> bool" where
  "searchInv g start s \<longleftrightarrow>
     distinct (openList s) \<and> set (openList s) \<inter> set (closedList s) = {} \<and>
     (\<forall>e \<in> set (openList s) \<union> set (closedList s). linked g start (entries s) (closedList s) e) \<and>
     (\<forall>k < length (closedList s). \<forall>p.
         entryParent (entries s ! (closedList s ! k)) = Some p \<longrightarrow> p \<in> set (take k (closedList s)))"

section \<open>Flood filling\<close>

text \<open>
  Modelled from the spec: \<^verbatim>\<open>nextUniqueNumberFloodFilling\<close> is defined outside these
  sources. It allocates a fresh color: the counter \<^verbatim>\<open>mUniqueNumberFloodFilling\<close>,
  which \<^verbatim>\<open>resetUniqueNumbers\<close> sets to zero, is incremented and returned.
\<close>

definition nextUniqueNumberFloodFilling :: "gameMap \<Rightarrow> int \<times> gameMap" where
  "nextUniqueNumberFloodFilling g =
     (mUniqueNumberFloodFilling g + 1,
      g\<lparr>mUniqueNumberFloodFilling := mUniqueNumberFloodFilling g + 1\<rparr>)"

text \<open>
  \<^verbatim>\<open>doFloodFill\<close> calls itself for every neighbor that does not have the color yet. The
  first argument of the embedding bounds the depth of these calls, as the stack does; a call
  that needs more is \<open>None\<close>, and a bound above the number of tiles is shown to
  be enough. The loop over the neighbors reads the color of
  a neighbor after the calls for the neighbors before it.
\<close>

fun floodNeighbors ::
  "(gameMap \<Rightarrow> tileRef \<Rightarrow> (nat \<times> gameMap) option) \<Rightarrow> int \<Rightarrow> tileRef list \<Rightarrow> nat \<Rightarrow> gameMap \<Rightarrow>
   (nat \<times> gameMap) option" where
  "floodNeighbors fill color [] tilesFlooded g = Some (tilesFlooded, g)"
| "floodNeighbors fill color (n # neighbors) tilesFlooded g =
     (if floodFillColor (tiles g n) \<noteq> color then
        (case fill g n of
           None \<Rightarrow> None
         | Some (flooded, g') \<Rightarrow> floodNeighbors fill color neighbors (tilesFlooded + flooded) g')
      else floodNeighbors fill color neighbors tilesFlooded g)"

primrec doFloodFill ::
  "nat \<Rightarrow> gameMap \<Rightarrow> int \<Rightarrow> int \<Rightarrow> TileClearType \<Rightarrow> int \<Rightarrow> (nat \<times> gameMap) option" where
  "doFloodFill 0 g startX startY passability color = None"
| "doFloodFill (Suc depth) g startX startY passability color =
     (if \<not> floodFillEnabled g then Some (0, g)
      else
        (case (if color < 0 then nextUniqueNumberFloodFilling g else (color, g)) of
           (color, g) \<Rightarrow>
             (case getTile g startX startY of
                Some tempTile \<Rightarrow>
                  if tilePassability (tiles g tempTile) = walkableTile then
                    (let g = g\<lparr>tiles := (tiles g)
                                (tempTile := (tiles g tempTile)\<lparr>floodFillColor := color\<rparr>)\<rparr>
                     in floodNeighbors
                          (\<lambda>g n. doFloodFill depth g (fst n) (snd n) passability color)
                          color (neighborTiles g startX startY) 1 g)
                  else Some (0, g)
              | None \<Rightarrow>
                  floodNeighbors
                    (\<lambda>g n. doFloodFill depth g (fst n) (snd n) passability color)
                    color (neighborTiles g startX startY) 1 g)))"

text \<open>
  The two nested loops of \<^verbatim>\<open>enableFloodFill\<close> visit the tiles row by row. The default
  arguments of \<^verbatim>\<open>doFloodFill\<close> are the walkable class and the color \<open>- 1\<close>.
\<close>

definition allTiles :: "gameMap \<Rightarrow> tileRef list" where
  "allTiles g = concat (map (\<lambda>jj. map (\<lambda>ii. (ii, jj)) [0 .. mMapSizeX g - 1]) [0 .. mMapSizeY g - 1])"

definition resetFloodFillColors :: "gameMap \<Rightarrow> gameMap" where
  "resetFloodFillColors g =
     fold (\<lambda>t g. g\<lparr>tiles := (tiles g)(t := (tiles g t)\<lparr>floodFillColor := - 1\<rparr>)\<rparr>) (allTiles g) g"

fun floodFillAll :: "nat \<Rightarrow> tileRef list \<Rightarrow> gameMap \<Rightarrow> gameMap option" where
  "floodFillAll depth [] g = Some g"
| "floodFillAll depth (t # ts) g =
     (if floodFillColor (tiles g t) = - 1 then
        (case doFloodFill depth g (fst t) (snd t) walkableTile (- 1) of
           None \<Rightarrow> None
         | Some (flooded, g') \<Rightarrow> floodFillAll depth ts g')
      else floodFillAll depth ts g)"

definition enableFloodFill :: "nat \<Rightarrow> gameMap \<Rightarrow> gameMap option" where
  "enableFloodFill depth g =
     floodFillAll depth (allTiles g) ((resetFloodFillColors g)\<lparr>floodFillEnabled := True\<rparr>)"

text \<open>
  Walkable reachability, in the words of the spec: a tile is walkable-reachable from a
  walkable tile when a chain of walkable tiles, each a neighbor of the one before, leads
  from the one to the other.
\<close>

definition walkableTileAt :: "gameMap \<Rightarrow> tileRef \<Rightarrow> bool" where
  "walkableTileAt g t \<longleftrightarrow> inGrid g t \<and> tilePassability (tiles g t) = walkableTile"

inductive walkableReachable :: "gameMap \<Rightarrow> tileRef \<Rightarrow> tileRef \<Rightarrow> bool" for g a where
  here: "walkableTileAt g a \<Longrightarrow> walkableReachable g a a"
| step: "walkableReachable g a b \<Longrightarrow> walkableTileAt g c \<Longrightarrow> c \<in> set (getAllNeighbors g b) \<Longrightarrow>
         walkableReachable g a c"

text \<open>
  An open grid of five by five tiles whose middle column is rock, and a grid of two rock
  tiles.
\<close>

definition rockTile :: tile where
  "rockTile = \<lparr>tilePassability = impassableTile, isDiggable = (\<lambda>c. False),
               permitsVision = False, floodFillColor = - 1\<rparr>"

definition walledMap :: gameMap where
  "walledMap = (openMap 5 5)\<lparr>tiles := (\<lambda>t. if fst t = 2 then rockTile else tiles (openMap 5 5) t)\<rparr>"

definition rockMap :: gameMap where
  "rockMap = (openMap 2 1)\<lparr>tiles := (\<lambda>t. rockTile)\<rparr>"

text \<open>
  Notions for the proofs about flood filling: the color of a tile, two maps with the same
  tiles up to their colors, two such maps with the same flood-fill flag and color counter,
  and the walkable tiles that do not have a given color.
\<close>

definition colorOf :: "gameMap \<Rightarrow> tileRef \<Rightarrow> int" where
  "colorOf g t = floodFillColor (tiles g t)"

definition sameLayout :: "gameMap \<Rightarrow> gameMap \<Rightarrow> bool" where
  "sameLayout g g' \<longleftrightarrow>
     mMapSizeX g' = mMapSizeX g \<and> mMapSizeY g' = mMapSizeY g \<and>
     (\<forall>t. tilePassability (tiles g' t) = tilePassability (tiles g t))"

definition sameGrid :: "gameMap \<Rightarrow> gameMap \<Rightarrow> bool" where
  "sameGrid g g' \<longleftrightarrow>
     sameLayout g g' \<and> floodFillEnabled g' = floodFillEnabled g \<and>
     mUniqueNumberFloodFilling g' = mUniqueNumberFloodFilling g"

definition uncolored :: "int \<Rightarrow> gameMap \<Rightarrow> tileRef set" where
  "uncolored c g = {t. walkableTileAt g t \<and> colorOf g t \<noteq> c}"

text \<open>
  What one call of \<^verbatim>\<open>doFloodFill\<close> with the color \<open>c\<close> does to a map: the layout, the
  flag and the counter stay; a tile keeps its color or gets the color \<open>c\<close>, and then it is
  walkable-reachable from one of the start tiles; and the walkable neighbors of a tile that
  got the color \<open>c\<close> have the color \<open>c\<close>.
\<close>

definition floods :: "int \<Rightarrow> gameMap \<Rightarrow> tileRef set \<Rightarrow> gameMap \<Rightarrow> bool" where
  "floods c g from g' \<longleftrightarrow>
     sameGrid g g' \<and>
     (\<forall>t. colorOf g' t = colorOf g t \<or>
          (colorOf g' t = c \<and> (\<exists>s \<in> from. walkableReachable g s t))) \<and>
     (\<forall>t. colorOf g' t = c \<and> colorOf g t \<noteq> c \<longrightarrow>
          (\<forall>n. walkableTileAt g n \<and> n \<in> set (getAllNeighbors g t) \<longrightarrow> colorOf g' n = c))"

text \<open>
  The invariant of the second loop of \<^verbatim>\<open>enableFloodFill\<close>: the colored tiles of the grid
  are walkable, their colors are between zero and the counter, the walkable neighbors of a
  colored tile have its color, two tiles of the same color other than \<open>- 1\<close> are
  walkable-reachable from each other, and the walkable tiles the loop has visited are
  colored.
\<close>

definition partitioned :: "gameMap \<Rightarrow> tileRef set \<Rightarrow> bool" where
  "partitioned g done \<longleftrightarrow>
     0 \<le> mUniqueNumberFloodFilling g \<and> floodFillEnabled g \<and>
     (\<forall>t. inGrid g t \<and> colorOf g t \<noteq> - 1 \<longrightarrow>
          walkableTileAt g t \<and> 0 \<le> colorOf g t \<and> colorOf g t \<le> mUniqueNumberFloodFilling g) \<and>
     (\<forall>t n. inGrid g t \<and> colorOf g t \<noteq> - 1 \<and> walkableTileAt g n \<and>
            n \<in> set (getAllNeighbors g t) \<longrightarrow> colorOf g n = colorOf g t) \<and>
     (\<forall>a b. inGrid g a \<and> inGrid g b \<and> colorOf g a \<noteq> - 1 \<and> colorOf g b = colorOf g a \<longrightarrow>
            walkableReachable g a b) \<and>
     (\<forall>t \<in> done. walkableTileAt g t \<longrightarrow> colorOf g t \<noteq> - 1)"

section \<open>The worker quota\<close>

















section \<open>Dead creatures in the turn driver\<close>

lemma deadCreatureSweep_keeps:
  "creatures (deadCreatureSweep controllingSeat g n) = creatures g \<and>
   entitiesToDelete (deadCreatureSweep controllingSeat g n) = entitiesToDelete g"
proof (induction controllingSeat g n rule: deadCreatureSweep.induct)
  case (1 controllingSeat g cptCreature)
  show ?case
    using "1.IH"
    by (subst (1 2) deadCreatureSweep.simps) (simp add: Let_def split: option.splits)
qed

text \<open>
  The upkeep pass and the sweep take no creature off the map and queue nothing for
  deletion: after \<^verbatim>\<open>doTurn\<close> the list of creatures and the deletion queue are the ones
  the creature turns have left, whatever a creature turn does.
\<close>

lemma doTurn_keeps_creatures:
  "creatures (fst (doTurn creatureDoTurn controllingSeat g)) =
     creatures (doCreatureTurns creatureDoTurn g) \<and>
   entitiesToDelete (fst (doTurn creatureDoTurn controllingSeat g)) =
     entitiesToDelete (doCreatureTurns creatureDoTurn g)"
  by (simp add: doTurn_def doMiscUpkeep_def Let_def deadCreatureSweep_keeps
      resetCreaturesControlled_def)

section \<open>Withdrawing gold\<close>

text \<open>
  Claim C10. When the seat's gold is less than the amount asked for,
  \<^verbatim>\<open>withdrawFromTreasuries\<close> returns false and leaves the map, and so the gold of every
  treasury, as it was; otherwise it returns true.
\<close>

theorem withdrawFromTreasuries_result:
  "(mGold s < gold \<longrightarrow> withdrawFromTreasuries withdrawGold g gold s = (False, g)) \<and>
   (\<not> mGold s < gold \<longrightarrow> fst (withdrawFromTreasuries withdrawGold g gold s) = True)"
  by (simp add: withdrawFromTreasuries_def)

theorem withdrawFromTreasuries_result_witness:
  "withdrawFromTreasuries withdrawUpTo treasuryMap 100
      \<lparr>seatColor = 1, mGold = 80, mNumCreaturesControlled = 0\<rparr> = (False, treasuryMap) \<and>
   fst (withdrawFromTreasuries withdrawUpTo treasuryMap 60
      \<lparr>seatColor = 1, mGold = 80, mNumCreaturesControlled = 0\<rparr>) = True"
  using withdrawFromTreasuries_result
          [of "\<lparr>seatColor = 1, mGold = 80, mNumCreaturesControlled = 0\<rparr>" 100 withdrawUpTo treasuryMap]
        withdrawFromTreasuries_result
          [of "\<lparr>seatColor = 1, mGold = 80, mNumCreaturesControlled = 0\<rparr>" 60 withdrawUpTo treasuryMap]
  by simp

section \<open>Corner cutting\<close>

lemma lineOfSightLoop_returns:
  "(xstep = 1 \<and> x \<le> x1) \<or> (xstep = - 1 \<and> x1 \<le> x) \<Longrightarrow>
   \<exists>p. lineOfSightLoop g steep x1 xstep ystep TwoDy TwoDyTwoDx x y E tilePath = Some p"
proof (induction "nat \<bar>x1 - x\<bar>" arbitrary: x y E tilePath)
  case 0
  then show ?case by (simp add: lineOfSightLoop.simps)
next
  case (Suc n)
  then have ne: "x \<noteq> x1" by auto
  from Suc have n: "n = nat \<bar>x1 - (x + xstep)\<bar>"
    and dir: "(xstep = 1 \<and> x + xstep \<le> x1) \<or> (xstep = - 1 \<and> x1 \<le> x + xstep)" by auto
  note IH = Suc.hyps(1)[OF n dir]
  show ?case
    using ne IH
    by (subst lineOfSightLoop.simps) (auto simp: Let_def split: option.splits)
qed

lemma lineOfSight_returns: "\<exists>p. lineOfSight g x0 y0 x1 y1 = Some p"
  unfolding lineOfSight_def Let_def
  by (auto intro!: lineOfSightLoop_returns split: if_splits)

lemma pathIsClearLoop_returns:
  "passability \<noteq> diggableTile \<Longrightarrow> \<exists>b. pathIsClearLoop g passability p = Some b"
  by (induction p) (auto split: TileClearType.splits)

lemma pathIsClear_returns:
  "passability \<noteq> diggableTile \<Longrightarrow> \<exists>b. pathIsClear g p passability = Some b"
  by (auto simp: pathIsClear_def pathIsClearLoop_returns)

lemma advanceT2_returns:
  "passability \<noteq> diggableTile \<Longrightarrow> \<exists>t. advanceT2 g passability tilePath t1 t2 = Some t"
proof (induction g passability tilePath t1 t2 rule: advanceT2.induct)
  case (1 g passability tilePath t1 t2)
  obtain p where p: "lineOfSight g (fst (tilePath ! t1)) (snd (tilePath ! t1)) (fst (tilePath ! t2)) (snd (tilePath ! t2)) = Some p"
    using lineOfSight_returns by blast
  obtain b where b: "pathIsClear g p passability = Some b"
    using pathIsClear_returns[OF "1.prems"] by blast
  show ?case
    using "1.IH"[OF _ p b] "1.prems" p b
    by (subst advanceT2.simps) simp
qed

lemma cutCornersLoop_returns:
  "passability \<noteq> diggableTile \<Longrightarrow> \<exists>p. cutCornersLoop g passability tilePath t1 = Some p"
proof (induction g passability tilePath t1 rule: cutCornersLoop.induct)
  case (1 g passability tilePath t1)
  obtain t2 where t2: "advanceT2 g passability tilePath t1 (t1 + 1) = Some t2"
    using advanceT2_returns[OF "1.prems"] by blast
  show ?case
    using "1.IH"(1)[OF _ t2] "1.IH"(2)[OF _ t2] "1.IH"(3)[OF _ t2] "1.prems" t2
    by (subst cutCornersLoop.simps) (simp add: Let_def)
qed

lemma take_eq_mono: "take n xs = take n ys \<Longrightarrow> m \<le> n \<Longrightarrow> take m xs = take m ys"
  by (metis min.absorb1 take_take)

lemma cutCornersLoop_result:
  "cutCornersLoop g passability tilePath t1 = Some p \<Longrightarrow>
   length p \<le> length tilePath \<and> take (Suc t1) p = take (Suc t1) tilePath \<and> last p = last tilePath"
proof (induction g passability tilePath t1 arbitrary: p rule: cutCornersLoop.induct)
  case (1 g passability tilePath t1)
  show ?case
  proof (cases "t1 < length tilePath")
    case False
    with "1.prems" show ?thesis by (simp add: cutCornersLoop.simps[of g passability tilePath t1])
  next
    case True
    from "1.prems" True obtain t2 where t2: "advanceT2 g passability tilePath t1 (t1 + 1) = Some t2"
      by (subst (asm) cutCornersLoop.simps) (auto split: option.splits)
    from advanceT2_bounds[OF t2] True have b: "t1 + 1 \<le> t2" "t2 \<le> length tilePath" by auto
    show ?thesis
    proof (cases "t1 + 1 \<noteq> t2 \<and> t1 + 1 \<noteq> t2 - 1")
      case False
      with "1.prems" True t2 have r: "cutCornersLoop g passability tilePath t2 = Some p"
        by (subst (asm) cutCornersLoop.simps) (auto simp: Let_def split: if_splits)
      from False have "t1 + 1 = t2 \<or> (t1 + 1 \<noteq> t2 \<and> t1 + 1 = t2 - 1)" by auto
      then have "length p \<le> length tilePath \<and> take (Suc t2) p = take (Suc t2) tilePath \<and> last p = last tilePath"
        using "1.IH"(2)[OF True t2 refl _ refl _ r] "1.IH"(3)[OF True t2 refl _ r] by auto
      then show ?thesis using b take_eq_mono[of "Suc t2" p tilePath "Suc t1"] by simp
    next
      case e: True
      let ?path2 = "erase tilePath (t1 + 1) (t2 - 1)"
      let ?t = "t2 - (t2 - 1 - (t1 + 1))"
      from "1.prems" True t2 e have r: "cutCornersLoop g passability ?path2 ?t = Some p"
        by (subst (asm) cutCornersLoop.simps) (auto simp: Let_def split: if_splits)
      from e have e1: "t1 + 1 \<noteq> t2" and e2: "t1 + 1 \<noteq> t2 - 1" by auto
      have ih: "length p \<le> length ?path2 \<and> take (Suc ?t) p = take (Suc ?t) ?path2 \<and> last p = last ?path2"
        using "1.IH"(1)[OF True t2 refl e1 refl e2 r] .
      from b e have t4: "t1 + 1 < t2 - 1" "t2 - 1 < length tilePath" by auto
      have l2: "length ?path2 \<le> length tilePath" using t4 by (simp add: erase_def)
      have la: "last ?path2 = last tilePath" using t4 by (simp add: erase_def)
      have tk: "take (Suc t1) ?path2 = take (Suc t1) tilePath" using t4 by (simp add: erase_def)
      have "Suc t1 \<le> Suc ?t" using t4 by auto
      with ih have "take (Suc t1) p = take (Suc t1) ?path2"
        using take_eq_mono[of "Suc ?t" p ?path2 "Suc t1"] by blast
      with ih l2 la tk show ?thesis by simp
    qed
  qed
qed

text \<open>
  Claim C6. \<^verbatim>\<open>cutCorners\<close> leaves a tilePath of at most three tiles as it is. Whenever it
  returns, the tilePath is no longer than before and has the same first and the same last tile.
  It returns for every tilePath when the passability class is one that \<^verbatim>\<open>pathIsClear\<close>
  handles (walkable, flyable, impassable); for the class \<^verbatim>\<open>diggableTile\<close> the
  clearness check ends the process instead.
\<close>

theorem cutCorners_properties:
  "(length tilePath \<le> 3 \<longrightarrow> cutCorners g tilePath passability = Some tilePath) \<and>
   (\<forall>p. cutCorners g tilePath passability = Some p \<longrightarrow>
      length p \<le> length tilePath \<and> hd p = hd tilePath \<and> last p = last tilePath) \<and>
   (passability \<noteq> diggableTile \<longrightarrow> (\<exists>p. cutCorners g tilePath passability = Some p))"
proof -
  have "length p \<le> length tilePath \<and> hd p = hd tilePath \<and> last p = last tilePath"
    if "cutCorners g tilePath passability = Some p" for p
  proof (cases "length tilePath \<le> 3")
    case True
    with that show ?thesis by (simp add: cutCorners_def)
  next
    case False
    with that have "cutCornersLoop g passability tilePath 0 = Some p" by (simp add: cutCorners_def)
    from cutCornersLoop_result[OF this]
    have r: "length p \<le> length tilePath" "take (Suc 0) p = take (Suc 0) tilePath" "last p = last tilePath"
      by auto
    from False have "tilePath \<noteq> []" by auto
    with r(2) have "hd p = hd tilePath" by (cases p; cases tilePath) auto
    with r show ?thesis by simp
  qed
  then show ?thesis
    by (auto simp: cutCorners_def cutCornersLoop_returns)
qed

theorem cutCorners_properties_witness:
  "(\<exists>p. cutCorners (openMap 5 5) [(0, 0), (1, 0), (2, 0), (3, 0), (4, 0)] walkableTile = Some p \<and>
        length p \<le> 5 \<and> hd p = (0, 0) \<and> last p = (4, 0)) \<and>
   cutCorners (openMap 5 5) [(0, 0), (1, 0), (1, 1)] walkableTile = Some [(0, 0), (1, 0), (1, 1)]"
  using cutCorners_properties[of "[(0, 0), (1, 0), (2, 0), (3, 0), (4, 0)]" "openMap 5 5" walkableTile]
        cutCorners_properties[of "[(0, 0), (1, 0), (1, 1)]" "openMap 5 5" walkableTile]
  by auto

section \<open>Line of sight in both directions\<close>

lemma getTile_Some: "getTile g x y \<noteq> None \<Longrightarrow> getTile g x y = Some (x, y)"
  by (simp add: getTile_def split: if_splits)

lemma getTile_between:
  "getTile g x y \<noteq> None \<Longrightarrow> getTile g x' y' \<noteq> None \<Longrightarrow>
   min x x' \<le> a \<Longrightarrow> a \<le> max x x' \<Longrightarrow> min y y' \<le> b \<Longrightarrow> b \<le> max y y' \<Longrightarrow>
   getTile g a b = Some (a, b)"
  by (auto simp: getTile_def split: if_splits)

lemma lineOfSightLoop_straight:
  assumes "E \<le> 0"
    and "(xstep = 1 \<and> x \<le> x1) \<or> (xstep = - 1 \<and> x1 \<le> x)"
    and "if steep then getTile g y x \<noteq> None \<and> getTile g y x1 \<noteq> None
         else getTile g x y \<noteq> None \<and> getTile g x1 y \<noteq> None"
  shows "lineOfSightLoop g steep x1 xstep ystep 0 T x y E tilePath =
         Some (tilePath @ map (\<lambda>i. if steep then (y, x + xstep * int i) else (x + xstep * int i, y))
                        [0 ..< nat \<bar>x1 - x\<bar>])"
  using assms
proof (induction "nat \<bar>x1 - x\<bar>" arbitrary: x tilePath)
  case 0
  then show ?case by (simp add: lineOfSightLoop.simps)
next
  case (Suc n)
  then have ne: "x \<noteq> x1" by auto
  from Suc have n: "n = nat \<bar>x1 - (x + xstep)\<bar>"
    and dir: "(xstep = 1 \<and> x + xstep \<le> x1) \<or> (xstep = - 1 \<and> x1 \<le> x + xstep)" by auto
  have here: "getTile g (if steep then y else x) (if steep then x else y) =
      Some (if steep then (y, x) else (x, y))"
    using Suc.prems(3) by (auto simp: getTile_Some)
  have nxt: "if steep then getTile g y (x + xstep) \<noteq> None \<and> getTile g y x1 \<noteq> None
         else getTile g (x + xstep) y \<noteq> None \<and> getTile g x1 y \<noteq> None"
    using Suc.prems(3) dir
    by (auto simp: getTile_def split: if_splits)
  have up: "[0 ..< nat \<bar>x1 - x\<bar>] = 0 # map Suc [0 ..< n]"
    using Suc.hyps(2) by (simp add: upt_conv_Cons map_Suc_upt del: upt_Suc)
  show ?case
    using ne here Suc.prems(1)
    by (subst lineOfSightLoop.simps)
       (simp add: Let_def Suc.hyps(1)[OF n Suc.prems(1) dir nxt] up n[symmetric] comp_def
          algebra_simps del: upt_Suc)
qed

lemma rev_tl_line:
  fixes f :: "int \<Rightarrow> 'a"
  assumes "b = a + s * int n"
  shows "tl (map (\<lambda>i. f (a + s * int i)) [0 ..< n]) =
         rev (tl (map (\<lambda>i. f (b + (- s) * int i)) [0 ..< n]))"
proof (rule nth_equalityI)
  show "length (tl (map (\<lambda>i. f (a + s * int i)) [0 ..< n])) =
        length (rev (tl (map (\<lambda>i. f (b + (- s) * int i)) [0 ..< n])))"
    by simp
next
  fix i
  assume "i < length (tl (map (\<lambda>i. f (a + s * int i)) [0 ..< n]))"
  then have i: "i < n - 1" by simp
  then have "int (n - Suc (Suc i)) = int n - 2 - int i" by auto
  moreover have "Suc (n - Suc (Suc i)) = n - Suc i" using i by auto
  ultimately show "tl (map (\<lambda>i. f (a + s * int i)) [0 ..< n]) ! i =
        rev (tl (map (\<lambda>i. f (b + (- s) * int i)) [0 ..< n])) ! i"
    using i assms
    by (simp add: nth_tl rev_nth algebra_simps of_nat_diff)
qed

text \<open>
  Claim C4, as amended. The loop of \<^verbatim>\<open>lineOfSight\<close> stops before the end point, so a
  trace holds its start tile and never its end tile, and two traces in opposite directions
  are not reverses of each other. For two tiles of the grid on one row or one column, each
  trace holds the tiles from its start up to the tile before its end, one tile for each
  step towards the end, and the two traces without their first tiles are reverses of each
  other.
\<close>

theorem lineOfSight_axis_reverse:
  assumes "x0 = x1 \<or> y0 = y1"
    and "getTile g x0 y0 \<noteq> None"
    and "getTile g x1 y1 \<noteq> None"
  shows "\<exists>p q. lineOfSight g x0 y0 x1 y1 = Some p \<and> lineOfSight g x1 y1 x0 y0 = Some q \<and>
           p = map (\<lambda>i. (x0 + sgn (x1 - x0) * int i, y0 + sgn (y1 - y0) * int i))
                 [0 ..< nat (\<bar>x1 - x0\<bar> + \<bar>y1 - y0\<bar>)] \<and>
           q = map (\<lambda>i. (x1 + sgn (x0 - x1) * int i, y1 + sgn (y0 - y1) * int i))
                 [0 ..< nat (\<bar>x1 - x0\<bar> + \<bar>y1 - y0\<bar>)] \<and>
           tl p = rev (tl q) \<and>
           (p = [] \<longleftrightarrow> (x0, y0) = (x1, y1)) \<and> (p \<noteq> [] \<longrightarrow> hd p = (x0, y0)) \<and>
           (x1, y1) \<notin> set p"
proof (cases "x0 = x1")
  case True
  define s :: int where "s = sgn (y1 - y0)"
  define n where "n = nat \<bar>y1 - y0\<bar>"
  define p where "p = map (\<lambda>i. (x0, y0 + s * int i)) [0 ..< n]"
  define q where "q = map (\<lambda>i. (x0, y1 + (- s) * int i)) [0 ..< n]"
  have y1: "y1 = y0 + s * int n" by (auto simp: s_def n_def sgn_if)
  have s': "n \<noteq> 0 \<Longrightarrow> s = (if y1 < y0 then - 1 else 1)" by (auto simp: s_def n_def sgn_if)
  have "lineOfSight g x0 y0 x1 y1 =
      Some (map (\<lambda>i. (x0, y0 + (if y1 < y0 then - 1 else 1) * int i)) [0 ..< n])"
    using True assms(2,3)
    by (simp add: lineOfSight_def Let_def lineOfSightLoop_straight n_def)
  then have lp: "lineOfSight g x0 y0 x1 y1 = Some p"
    using s' by (cases "n = 0") (simp_all add: p_def)
  have "lineOfSight g x1 y1 x0 y0 =
      Some (map (\<lambda>i. (x0, y1 + (if y0 < y1 then - 1 else 1) * int i)) [0 ..< n])"
    using True assms(2,3)
    by (auto simp: lineOfSight_def Let_def lineOfSightLoop_straight n_def abs_minus_commute)
  moreover have "n \<noteq> 0 \<Longrightarrow> - s = (if y0 < y1 then - 1 else 1)"
    by (auto simp: s_def n_def sgn_if)
  ultimately have lq: "lineOfSight g x1 y1 x0 y0 = Some q"
    by (cases "n = 0") (simp_all add: q_def)
  have pe: "p = map (\<lambda>i. (x0 + sgn (x1 - x0) * int i, y0 + sgn (y1 - y0) * int i))
                 [0 ..< nat (\<bar>x1 - x0\<bar> + \<bar>y1 - y0\<bar>)]"
    using True by (simp add: p_def s_def n_def)
  have qe: "q = map (\<lambda>i. (x1 + sgn (x0 - x1) * int i, y1 + sgn (y0 - y1) * int i))
                 [0 ..< nat (\<bar>x1 - x0\<bar> + \<bar>y1 - y0\<bar>)]"
    using True by (auto simp: q_def s_def n_def sgn_if)
  have "(x1, y1) \<notin> set p"
    by (auto simp: s_def n_def p_def sgn_if)
  moreover have "p \<noteq> [] \<longrightarrow> hd p = (x0, y0)"
    by (auto simp: hd_map upt_conv_Cons p_def)
  moreover have "p = [] \<longleftrightarrow> (x0, y0) = (x1, y1)"
    using True by (auto simp: n_def p_def)
  moreover have "tl p = rev (tl q)"
    unfolding p_def q_def by (rule rev_tl_line[OF y1, of "\<lambda>y. (x0, y)"])
  ultimately show ?thesis using lp lq pe qe by blast
next
  case False
  with assms have y: "y0 = y1" by simp
  define s :: int where "s = sgn (x1 - x0)"
  define n where "n = nat \<bar>x1 - x0\<bar>"
  define p where "p = map (\<lambda>i. (x0 + s * int i, y0)) [0 ..< n]"
  define q where "q = map (\<lambda>i. (x1 + (- s) * int i, y0)) [0 ..< n]"
  have x1: "x1 = x0 + s * int n" by (auto simp: s_def n_def sgn_if)
  have s': "s = (if x1 < x0 then - 1 else 1)" using False by (auto simp: s_def sgn_if)
  have lp: "lineOfSight g x0 y0 x1 y1 = Some p"
    using False y assms(2,3)
    by (simp add: lineOfSight_def Let_def lineOfSightLoop_straight s' n_def p_def)
  have lq: "lineOfSight g x1 y1 x0 y0 = Some q"
    using False y assms(2,3)
    by (auto simp: lineOfSight_def Let_def lineOfSightLoop_straight s' n_def q_def
        abs_minus_commute)
  have pe: "p = map (\<lambda>i. (x0 + sgn (x1 - x0) * int i, y0 + sgn (y1 - y0) * int i))
                 [0 ..< nat (\<bar>x1 - x0\<bar> + \<bar>y1 - y0\<bar>)]"
    using y by (simp add: p_def s_def n_def)
  have qe: "q = map (\<lambda>i. (x1 + sgn (x0 - x1) * int i, y1 + sgn (y0 - y1) * int i))
                 [0 ..< nat (\<bar>x1 - x0\<bar> + \<bar>y1 - y0\<bar>)]"
    using y by (auto simp: q_def s_def n_def sgn_if)
  have "(x1, y1) \<notin> set p"
    by (auto simp: s_def n_def p_def sgn_if)
  moreover have "p \<noteq> [] \<longrightarrow> hd p = (x0, y0)"
    by (auto simp: hd_map upt_conv_Cons p_def)
  moreover have "p = [] \<longleftrightarrow> (x0, y0) = (x1, y1)"
    using False by (auto simp: n_def p_def)
  moreover have "tl p = rev (tl q)"
    unfolding p_def q_def by (rule rev_tl_line[OF x1, of "\<lambda>x. (x, y0)"])
  ultimately show ?thesis using lp lq pe qe by blast
qed

text \<open>
  On an open grid of four by four tiles the trace from \<open>(0, 0)\<close> to \<open>(3, 0)\<close> and the
  trace back are not reverses of each other; between \<open>(0, 0)\<close> and \<open>(2, 1)\<close>, which share
  neither row nor column, the two traces differ in more than their end points.
\<close>

theorem lineOfSight_reverse_counterexample:
  "lineOfSight (openMap 4 4) 0 0 3 0 = Some [(0, 0), (1, 0), (2, 0)] \<and>
   lineOfSight (openMap 4 4) 3 0 0 0 = Some [(3, 0), (2, 0), (1, 0)] \<and>
   [(0, 0), (1, 0), (2, 0)] \<noteq> rev [(3 :: int, 0 :: int), (2, 0), (1, 0)] \<and>
   lineOfSight (openMap 4 4) 0 0 2 1 = Some [(0, 0), (1, 0), (2, 0)] \<and>
   lineOfSight (openMap 4 4) 2 1 0 0 = Some [(2, 1), (1, 1), (2, 1)]"
  by (simp add: lineOfSight_def lineOfSightLoop.simps getTile_def Let_def)

theorem lineOfSight_axis_reverse_witness:
  "lineOfSight (openMap 4 4) 0 2 3 2 = Some [(0, 2), (1, 2), (2, 2)] \<and>
   lineOfSight (openMap 4 4) 3 2 0 2 = Some [(3, 2), (2, 2), (1, 2)] \<and>
   tl [(0 :: int, 2 :: int), (1, 2), (2, 2)] = rev (tl [(3, 2), (2, 2), (1, 2)])"
  using lineOfSight_axis_reverse[of 0 3 2 2 "openMap 4 4"]
  by (simp add: getTile_def upt_conv_Cons)

section \<open>Visibility and the sight radius\<close>

lemma collectTileQueue_mono:
  "r2 \<le> r2' \<Longrightarrow> collectTileQueue g es sx sy r2' = Some q' \<Longrightarrow>
   \<exists>q. collectTileQueue g es sx sy r2 = Some q \<and> prefix q q'"
proof (induction es arbitrary: q')
  case Nil
  then show ?case by simp
next
  case (Cons e es)
  show ?case
  proof (cases "radiusSquared e > r2")
    case True
    then show ?thesis by simp
  next
    case False
    with Cons.prems have le: "\<not> radiusSquared e > r2'" by simp
    with Cons.prems obtain q1' where q1': "collectTileQueue g es sx sy r2' = Some q1'"
      by (auto split: option.splits)
    from Cons.IH[OF Cons.prems(1) q1'] obtain q1
      where q1: "collectTileQueue g es sx sy r2 = Some q1" "prefix q1 q1'" by blast
    with Cons.prems False le q1' show ?thesis
      by (auto split: option.splits)
  qed
qed

lemma processTileQueue_prefix:
  "prefix q q' \<Longrightarrow> prefix (processTileQueue ob g st q) (processTileQueue ob g st q')"
proof (induction ob g st q arbitrary: q' rule: processTileQueue.induct)
  case (1 ob g st)
  then show ?case by simp
next
  case (2 ob g st t theta tileQueue)
  from "2.prems" obtain rest where q': "q' = (t, theta) # rest" and p: "prefix tileQueue rest"
    by (cases q') auto
  show ?case
    using "2.IH"(1)[OF _ p] "2.IH"(2)[OF _ filter_mono_prefix[OF p]] q'
    by simp
qed

subsection \<open>The rounded product and the cast\<close>

lemma roundHalfEven_of_int [simp]: "roundHalfEven (of_int k) = k"
  by (simp add: roundHalfEven_def)

lemma roundHalfEven_bounds: "\<lfloor>y\<rfloor> \<le> roundHalfEven y \<and> roundHalfEven y \<le> \<lfloor>y\<rfloor> + 1"
  by (simp add: roundHalfEven_def Let_def)

lemma roundHalfEven_mono: "y \<le> y' \<Longrightarrow> roundHalfEven y \<le> roundHalfEven y'"
proof -
  assume le: "y \<le> y'"
  then have f: "\<lfloor>y\<rfloor> \<le> \<lfloor>y'\<rfloor>" by (rule floor_mono)
  show ?thesis
  proof (cases "\<lfloor>y\<rfloor> = \<lfloor>y'\<rfloor>")
    case True
    with le show ?thesis by (auto simp: roundHalfEven_def Let_def)
  next
    case False
    with f have "\<lfloor>y\<rfloor> + 1 \<le> \<lfloor>y'\<rfloor>" by simp
    with roundHalfEven_bounds[of y] roundHalfEven_bounds[of y'] show ?thesis by linarith
  qed
qed

lemma roundHalfEven_ge: "of_int k \<le> y \<Longrightarrow> k \<le> roundHalfEven y"
  using roundHalfEven_mono[of "of_int k" y] by simp

lemma roundHalfEven_le: "y \<le> of_int k \<Longrightarrow> roundHalfEven y \<le> k"
  using roundHalfEven_mono[of y "of_int k"] by simp

lemma floor_log2_iff:
  fixes x :: real
  assumes "0 < x"
  shows "\<lfloor>log 2 x\<rfloor> = k \<longleftrightarrow> 2 powi k \<le> x \<and> x < 2 powi (k + 1)"
proof -
  have "2 powr (real_of_int k) = (2 :: real) powi k" by (simp add: powr_real_of_int')
  moreover have "2 powr (real_of_int (k + 1)) = (2 :: real) powi (k + 1)"
    by (rule powr_real_of_int') simp_all
  ultimately show ?thesis using floor_log_eq_powr_iff[OF assms, of 2 k] by simp
qed

lemma binade_upper: "x \<noteq> 0 \<Longrightarrow> \<bar>x\<bar> < 2 powi (binade x + 1)"
proof -
  assume "x \<noteq> 0"
  then have pos: "0 < \<bar>x\<bar>" by simp
  define k where "k = \<lfloor>log 2 \<bar>x\<bar>\<rfloor>"
  from floor_log2_iff[OF pos, of k] have "\<bar>x\<bar> < 2 powi (k + 1)"
    by (simp add: k_def)
  also have "\<dots> \<le> 2 powi (binade x + 1)"
    by (rule power_int_increasing) (simp_all add: binade_def k_def)
  finally show ?thesis .
qed

lemma binade_lower: "2 powi (- 1022) \<le> \<bar>x\<bar> \<Longrightarrow> 2 powi (binade x) \<le> \<bar>x\<bar>"
proof -
  assume n: "2 powi (- 1022) \<le> \<bar>x\<bar>"
  have "(0 :: real) < 2 powi (- 1022)" by simp
  with n have pos: "0 < \<bar>x\<bar>" by linarith
  define k where "k = \<lfloor>log 2 \<bar>x\<bar>\<rfloor>"
  from floor_log2_iff[OF pos, of k] have kx: "2 powi k \<le> \<bar>x\<bar>"
    by (simp add: k_def)
  show ?thesis
  proof (cases "- 1022 \<le> k")
    case True
    then have "binade x = k" by (simp add: binade_def k_def)
    with kx show ?thesis by simp
  next
    case False
    then have "binade x = - 1022" by (simp add: binade_def k_def)
    with n show ?thesis by simp
  qed
qed

lemma binade_mono: "0 < x \<Longrightarrow> x \<le> y \<Longrightarrow> binade x \<le> binade y"
  unfolding binade_def by (intro max.mono order_refl floor_mono) (simp add: log_le_cancel_iff)

lemma binade_eqI:
  assumes "2 powi e \<le> \<bar>x\<bar>" and "\<bar>x\<bar> < 2 powi (e + 1)" and "- 1022 \<le> e"
  shows "binade x = e"
proof -
  have "(0 :: real) < 2 powi e" by simp
  with assms(1) have pos: "0 < \<bar>x\<bar>" by linarith
  have "\<lfloor>log 2 \<bar>x\<bar>\<rfloor> = e"
    using assms(1,2) by (simp add: floor_log2_iff[OF pos])
  with assms(3) show ?thesis by (simp add: binade_def)
qed

lemma binade_lower_normal:
  assumes "x \<noteq> 0" and "- 1022 < binade x"
  shows "2 powi (binade x) \<le> \<bar>x\<bar>"
proof -
  from assms(1) have pos: "0 < \<bar>x\<bar>" by simp
  from assms(2) have "binade x = \<lfloor>log 2 \<bar>x\<bar>\<rfloor>" by (simp add: binade_def max_def split: if_splits)
  with floor_log2_iff[OF pos, of "binade x"] show ?thesis by simp
qed

lemma roundToDouble_nonneg: "0 \<le> x \<Longrightarrow> 0 \<le> roundToDouble x"
  using roundHalfEven_ge[of 0 "x / 2 powi (binade x - 52)"]
  by (simp add: roundToDouble_def)

lemma roundToDouble_le_pow:
  assumes "0 < x"
  shows "roundToDouble x \<le> 2 powi (binade x + 1)"
proof -
  let ?u = "(2 :: real) powi (binade x - 52)"
  have u: "0 < ?u" by simp
  have p: "(2 :: real) powi (binade x + 1) = 2 ^ 53 * ?u"
    using power_int_add[of "2 :: real" 53 "binade x - 52"] by (simp add: algebra_simps)
  from binade_upper[of x] assms have "x < 2 ^ 53 * ?u" by (simp add: p)
  then have "x / ?u \<le> of_int (2 ^ 53)" using u by (simp add: field_simps)
  from roundHalfEven_le[OF this] have "of_int (roundHalfEven (x / ?u)) \<le> (2 ^ 53 :: real)"
    by (metis of_int_le_iff of_int_numeral of_int_power)
  then have "of_int (roundHalfEven (x / ?u)) * ?u \<le> 2 ^ 53 * ?u"
    using u by (simp add: mult_right_mono)
  with assms show ?thesis by (simp add: roundToDouble_def p)
qed

lemma roundToDouble_ge_pow:
  assumes "0 < x" and "2 powi (binade x) \<le> x"
  shows "2 powi (binade x) \<le> roundToDouble x"
proof -
  let ?u = "(2 :: real) powi (binade x - 52)"
  have u: "0 < ?u" by simp
  have p: "(2 :: real) powi (binade x) = 2 ^ 52 * ?u"
    using power_int_add[of "2 :: real" 52 "binade x - 52"] by (simp add: algebra_simps)
  from assms(2) have "of_int (2 ^ 52) \<le> x / ?u" using u by (simp add: p field_simps)
  from roundHalfEven_ge[OF this] have "(2 ^ 52 :: real) \<le> of_int (roundHalfEven (x / ?u))"
    by (metis of_int_le_iff of_int_numeral of_int_power)
  then have "2 ^ 52 * ?u \<le> of_int (roundHalfEven (x / ?u)) * ?u"
    using u by (simp add: mult_right_mono)
  with assms show ?thesis by (simp add: roundToDouble_def p)
qed

lemma roundToDouble_mono:
  assumes "0 \<le> x" and "x \<le> y"
  shows "roundToDouble x \<le> roundToDouble y"
proof (cases "x = 0")
  case True
  with assms roundToDouble_nonneg[of y] show ?thesis by (simp add: roundToDouble_def)
next
  case False
  with assms have x: "0 < x" and y: "0 < y" by simp_all
  from binade_mono[OF x assms(2)] have le: "binade x \<le> binade y" .
  show ?thesis
  proof (cases "binade x = binade y")
    case True
    let ?u = "(2 :: real) powi (binade y - 52)"
    have u: "0 < ?u" by simp
    from assms(2) u have "x / ?u \<le> y / ?u" by (simp add: divide_right_mono)
    then have "roundHalfEven (x / ?u) \<le> roundHalfEven (y / ?u)" by (rule roundHalfEven_mono)
    then have "of_int (roundHalfEven (x / ?u)) * ?u \<le> of_int (roundHalfEven (y / ?u)) * ?u"
      using u by (simp add: mult_right_mono)
    with x y True show ?thesis by (simp add: roundToDouble_def)
  next
    case False
    with le have lt: "binade x + 1 \<le> binade y" by simp
    have "- 1022 \<le> binade x" by (simp add: binade_def)
    with lt have "- 1022 < binade y" by simp
    from binade_lower_normal[OF _ this] y have "2 powi (binade y) \<le> y" by simp
    from roundToDouble_ge_pow[OF y this] have "2 powi (binade y) \<le> roundToDouble y" .
    moreover have "(2 :: real) powi (binade x + 1) \<le> 2 powi (binade y)"
      using lt by (intro power_int_increasing) simp_all
    moreover note roundToDouble_le_pow[OF x]
    ultimately show ?thesis by linarith
  qed
qed

lemma roundHalfEven_numeral [simp]: "roundHalfEven (numeral n) = numeral n"
  using roundHalfEven_of_int[of "numeral n"] by (simp del: roundHalfEven_of_int)

lemma roundToDouble_of_int:
  assumes "0 \<le> k" and "k \<le> 2 ^ 53"
  shows "roundToDouble (of_int k) = of_int k"
proof (cases "k = 0")
  case True
  then show ?thesis by (simp add: roundToDouble_def)
next
  case False
  with assms have k: "0 < k" by simp
  define e where "e = binade (of_int k)"
  have e0: "- 1022 \<le> e" by (simp add: e_def binade_def)
  define d where "d = nat (52 - e)"
  show ?thesis
  proof (cases "k = 2 ^ 53")
    case True
    have "binade (of_int k) = 53"
      using True by (intro binade_eqI) simp_all
    then show ?thesis
      using True by (simp add: roundToDouble_def)
  next
    case False
    with assms have k53: "k < 2 ^ 53" by simp
    have "e \<le> 52"
    proof (rule ccontr)
      assume "\<not> e \<le> 52"
      then have e: "53 \<le> e" "- 1022 < e" by simp_all
      from binade_lower_normal[of "of_int k"] k e have "2 powi e \<le> (of_int k :: real)"
        by (simp add: e_def)
      moreover have "(2 :: real) powi 53 \<le> 2 powi e"
        using e by (intro power_int_increasing) simp_all
      ultimately have "(2 :: real) ^ 53 \<le> of_int k" by simp
      then have "(2 :: int) ^ 53 \<le> k" by (metis of_int_le_iff of_int_numeral of_int_power)
      with k53 show False by simp
    qed
    then have u: "(2 :: real) powi (e - 52) = 1 / 2 ^ d"
      using power_int_minus_divide[of "2 :: real" "52 - e"]
      by (simp add: d_def power_int_nonneg_exp)
    have "of_int k / (2 :: real) powi (e - 52) = of_int (k * 2 ^ d)"
      by (simp add: u)
    then have "roundHalfEven (of_int k / 2 powi (e - 52)) = k * 2 ^ d"
      by (simp only: roundHalfEven_of_int)
    then show ?thesis
      using k by (simp add: roundToDouble_def e_def[symmetric] u)
  qed
qed

lemma roundToDouble_numeral:
  "(numeral n :: int) \<le> 2 ^ 53 \<Longrightarrow> roundToDouble (numeral n) = numeral n"
  using roundToDouble_of_int[of "numeral n"] by simp

lemma roundToDouble_one: "roundToDouble 1 = 1"
  using roundToDouble_of_int[of 1] by simp

lemma truncToInt_mono: "0 \<le> a \<Longrightarrow> a \<le> b \<Longrightarrow> truncToInt a \<le> truncToInt b"
  by (simp add: truncToInt_def floor_mono)

lemma castToInt_mono:
  assumes "0 \<le> a" and "a \<le> b" and "b < 2 ^ 31"
  shows "castToInt a \<le> castToInt b"
proof -
  from assms have fa: "0 \<le> \<lfloor>a\<rfloor>" and fb: "\<lfloor>b\<rfloor> < 2 ^ 31" and ab: "\<lfloor>a\<rfloor> \<le> \<lfloor>b\<rfloor>"
    by (simp_all add: floor_mono floor_less_iff)
  with assms show ?thesis by (simp add: castToInt_def truncToInt_def Let_def)
qed

lemma square_mono:
  assumes "0 \<le> r" and "r \<le> r'" and "roundToDouble (r' * r') < 2 ^ 31"
  shows "castToInt (roundToDouble (r * r)) \<le> castToInt (roundToDouble (r' * r'))"
proof -
  from assms(1,2) have "r * r \<le> r' * r'" by (simp add: mult_mono)
  with assms(1) have le: "roundToDouble (r * r) \<le> roundToDouble (r' * r')"
    by (intro roundToDouble_mono) simp_all
  from assms(1) have "0 \<le> roundToDouble (r * r)" by (intro roundToDouble_nonneg) simp
  from castToInt_mono[OF this le assms(3)] show ?thesis .
qed

text \<open>The square of a radius up to \<open>46340\<close> fits the \<^verbatim>\<open>int\<close>.\<close>

lemma square_fits:
  assumes "0 \<le> r" and "r \<le> 46340"
  shows "roundToDouble (r * r) < 2 ^ 31"
proof -
  from assms have "r * r \<le> 46340 * 46340" by (intro mult_mono) simp_all
  then have le: "r * r \<le> 2147395600" by simp
  have "0 \<le> r * r" by simp
  from roundToDouble_mono[OF this le] have "roundToDouble (r * r) \<le> 2147395600"
    by (simp add: roundToDouble_numeral)
  then show ?thesis by simp
qed

text \<open>
  The binade of a number can be computed from the length in bits of its integral part, or
  of the integral part of its inverse.
\<close>

lemma binade_code [code]:
  "binade x =
     (if x = 0 then 0
      else if 1 \<le> \<bar>x\<bar> then bitlen \<lfloor>\<bar>x\<bar>\<rfloor> - 1
      else max (- 1022) (- bitlen (\<lceil>1 / \<bar>x\<bar>\<rceil> - 1)))"
proof (cases "x = 0")
  case True
  then show ?thesis by (simp add: binade_def log_def)
next
  case False
  then have pos: "0 < \<bar>x\<bar>" by simp
  show ?thesis
  proof (cases "1 \<le> \<bar>x\<bar>")
    case True
    define m where "m = \<lfloor>\<bar>x\<bar>\<rfloor>"
    from True have m: "0 < m" by (simp add: m_def)
    then have b1: "1 \<le> bitlen m" by (simp add: bitlen_alt_def)
    from bitlen_bounds[OF m] have lo: "2 ^ nat (bitlen m - 1) \<le> m" and hi: "m < 2 ^ nat (bitlen m)"
      by simp_all
    have "of_int (2 ^ nat (bitlen m - 1)) \<le> \<bar>x\<bar>"
      using lo by (simp add: m_def le_floor_iff del: of_int_power)
    then have l: "2 powi (bitlen m - 1) \<le> \<bar>x\<bar>"
      using b1 by (simp add: power_int_nonneg_exp)
    from hi have "m + 1 \<le> 2 ^ nat (bitlen m)" by simp
    then have "\<bar>x\<bar> < of_int (2 ^ nat (bitlen m))"
      unfolding m_def by (metis floor_less_iff less_le_trans zless_add1_eq le_less)
    then have h: "\<bar>x\<bar> < 2 powi (bitlen m - 1 + 1)"
      using b1 by (simp add: power_int_nonneg_exp)
    from b1 have "- 1022 \<le> bitlen m - 1" by simp
    from binade_eqI[OF l h this] True False show ?thesis by (simp add: m_def)
  next
    case small: False
    define n where "n = \<lceil>1 / \<bar>x\<bar>\<rceil>"
    define k where "k = bitlen (n - 1)"
    from small pos have gt1: "1 < 1 / \<bar>x\<bar>" by (simp add: field_simps)
    then have n2: "2 \<le> n" unfolding n_def by (simp add: le_ceiling_iff) 
    then have n1: "0 < n - 1" by simp
    then have k1: "1 \<le> k" by (simp add: k_def bitlen_alt_def)
    from bitlen_bounds[OF n1] have lo: "2 ^ nat (k - 1) \<le> n - 1" and hi: "n - 1 < 2 ^ nat k"
      by (simp_all add: k_def)
    have "1 / \<bar>x\<bar> \<le> of_int n" by (simp add: n_def)
    also have "(of_int n :: real) \<le> of_int (2 ^ nat k)" using hi by (simp del: of_int_power)
    finally have "1 / \<bar>x\<bar> \<le> 2 ^ nat k" by simp
    then have "1 / 2 ^ nat k \<le> \<bar>x\<bar>" using pos by (simp add: field_simps)
    then have l: "2 powi (- k) \<le> \<bar>x\<bar>"
      using k1 by (simp add: power_int_minus_divide power_int_nonneg_exp)
    have "of_int (n - 1) < 1 / \<bar>x\<bar>" unfolding n_def by linarith
    moreover have "(of_int (2 ^ nat (k - 1)) :: real) \<le> of_int (n - 1)"
      using lo by (simp only: of_int_le_iff)
    ultimately have "2 ^ nat (k - 1) < 1 / \<bar>x\<bar>" by simp
    then have "\<bar>x\<bar> < 1 / 2 ^ nat (k - 1)" using pos by (simp add: field_simps)
    moreover have "(2 :: real) powi (- k + 1) = 1 / 2 ^ nat (k - 1)"
      using k1 power_int_minus_divide[of "2 :: real" "k - 1"] by (simp add: power_int_nonneg_exp)
    ultimately have h: "\<bar>x\<bar> < 2 powi (- k + 1)" by simp
    from l h have "\<lfloor>log 2 \<bar>x\<bar>\<rfloor> = - k" by (simp add: floor_log2_iff[OF pos])
    with small False show ?thesis by (simp add: binade_def n_def k_def)
  qed
qed

subsection \<open>The tiles seen grow with the radius\<close>

lemma collectTileQueue_returns:
  "\<exists>e \<in> set es. r2 < radiusSquared e \<Longrightarrow> \<exists>q. collectTileQueue g es sx sy r2 = Some q"
proof (induction es)
  case Nil
  then show ?case by simp
next
  case (Cons a es)
  show ?case
  proof (cases "r2 < radiusSquared a")
    case True
    then show ?thesis by simp
  next
    case False
    with Cons.prems have "\<exists>e \<in> set es. r2 < radiusSquared e" by auto
    from Cons.IH[OF this] obtain q where "collectTileQueue g es sx sy r2 = Some q" by blast
    with False show ?thesis by (simp split: option.splits)
  qed
qed

text \<open>
  Claim C5, as amended. \<^verbatim>\<open>visibleTiles\<close> squares the radius and casts the square to
  \<^verbatim>\<open>int\<close>, so the tiles seen grow with the radius only among radii that are not negative
  and whose square fits the \<^verbatim>\<open>int\<close>. For \<open>0 \<le> r < r'\<close>, when the square of \<open>r'\<close>, as the
  code computes it, is below \<open>2 ^ 31\<close> (it is for every \<open>r'\<close> up to \<open>46340\<close>, lemma
  \<open>square_fits\<close>) and the table of offsets reaches beyond it, both queries return, and the
  query with radius \<open>r\<close> returns a prefix of the tiles of the query with radius \<open>r'\<close>, and
  so a subset of them.
\<close>

theorem visibleTiles_monotone:
  assumes "0 \<le> r" and "r < r'"
    and "roundToDouble (r' * r') < 2 ^ 31"
    and "\<exists>e \<in> set tcm. castToInt (roundToDouble (r' * r')) < radiusSquared e"
  shows "\<exists>V V'. visibleTiles tcm ob g startTile r = Some V \<and>
           visibleTiles tcm ob g startTile r' = Some V' \<and> prefix V V' \<and> set V \<subseteq> set V'"
proof (cases "permitsVision (tiles g startTile)")
  case False
  then show ?thesis by (simp add: visibleTiles_def)
next
  case True
  from collectTileQueue_returns[OF assms(4)] obtain q' where
    q': "collectTileQueue g tcm (fst startTile) (snd startTile)
           (castToInt (roundToDouble (r' * r'))) = Some q'"
    by blast
  from assms(1,2) have "r \<le> r'" by simp
  from square_mono[OF assms(1) this assms(3)]
  have "castToInt (roundToDouble (r * r)) \<le> castToInt (roundToDouble (r' * r'))" .
  from collectTileQueue_mono[OF this q'] obtain q where
    q: "collectTileQueue g tcm (fst startTile) (snd startTile)
          (castToInt (roundToDouble (r * r))) = Some q"
    and pq: "prefix q q'" by blast
  have "prefix (processTileQueue ob g startTile q) (processTileQueue ob g startTile q')"
    by (rule processTileQueue_prefix[OF pq])
  with q q' True show ?thesis
    by (auto simp: visibleTiles_def dest: set_mono_prefix)
qed

text \<open>
  From the middle of an open grid of five by five tiles the radius \<open>1\<close> sees five tiles.
  The square of the larger radius \<open>50000\<close> does not fit the \<^verbatim>\<open>int\<close>: the cast yields
  \<open>- 2 ^ 31\<close>, and the query sees no tile at all. The radius \<open>- 2\<close>, which is below \<open>1\<close>,
  sees thirteen tiles.
\<close>

theorem visibleTiles_monotone_counterexample:
  "visibleTiles spiralTable (\<lambda>dx dy theta. False) (openMap 5 5) (2, 2) 1 =
     Some [(2, 2), (3, 2), (2, 3), (1, 2), (2, 1)] \<and>
   visibleTiles spiralTable (\<lambda>dx dy theta. False) (openMap 5 5) (2, 2) 50000 = Some [] \<and>
   (1 :: real) < 50000 \<and>
   \<not> set [(2 :: int, 2 :: int), (3, 2), (2, 3), (1, 2), (2, 1)] \<subseteq> set [] \<and>
   visibleTiles spiralTable (\<lambda>dx dy theta. False) (openMap 5 5) (2, 2) (- 2) =
     Some [(2, 2), (3, 2), (2, 3), (1, 2), (2, 1), (3, 3), (1, 3), (1, 1), (3, 1),
           (4, 2), (2, 4), (0, 2), (2, 0)] \<and>
   (- 2 :: real) < 1 \<and>
   \<not> set [(2 :: int, 2 :: int), (3, 2), (2, 3), (1, 2), (2, 1), (3, 3), (1, 3), (1, 1), (3, 1),
           (4, 2), (2, 4), (0, 2), (2, 0)] \<subseteq> set [(2, 2), (3, 2), (2, 3), (1, 2), (2, 1)]"
  by (simp add: visibleTiles_def spiralTable_def roundToDouble_numeral roundToDouble_one
      castToInt_def truncToInt_def getTile_def openMap_def emptyMap_def)

text \<open>The radii \<open>1\<close> and \<open>2\<close> on the same grid.\<close>

theorem visibleTiles_monotone_witness:
  "visibleTiles spiralTable (\<lambda>dx dy theta. False) (openMap 5 5) (2, 2) 2 =
     Some [(2, 2), (3, 2), (2, 3), (1, 2), (2, 1), (3, 3), (1, 3), (1, 1), (3, 1),
           (4, 2), (2, 4), (0, 2), (2, 0)] \<and>
   visibleTiles spiralTable (\<lambda>dx dy theta. False) (openMap 5 5) (2, 2) 1 =
     Some [(2, 2), (3, 2), (2, 3), (1, 2), (2, 1)] \<and>
   roundToDouble (2 * 2) < 2 ^ 31 \<and> castToInt (roundToDouble (2 * 2)) = 4 \<and>
   set [(2 :: int, 2 :: int), (3, 2), (2, 3), (1, 2), (2, 1)] \<subseteq>
   set [(2, 2), (3, 2), (2, 3), (1, 2), (2, 1), (3, 3), (1, 3), (1, 1), (3, 1),
           (4, 2), (2, 4), (0, 2), (2, 0)]"
  using visibleTiles_monotone[of 1 2 spiralTable "\<lambda>dx dy theta. False" "openMap 5 5" "(2, 2)"]
  by (simp add: visibleTiles_def spiralTable_def roundToDouble_numeral roundToDouble_one
      castToInt_def truncToInt_def getTile_def openMap_def emptyMap_def)

section \<open>Path finding\<close>

lemma getTile_counter [simp]: "getTile (g\<lparr>numCallsTo_path := k\<rparr>) a b = getTile g a b"
  by (simp add: getTile_def)

text \<open>
  Claim C8. When the tile at the start or the tile at the goal does not exist, \<^verbatim>\<open>path\<close>
  returns the empty list, and of the map it changes the call counter only.
\<close>

theorem path_missing_endpoint:
  assumes "getTile g x1 y1 = None \<or> getTile g x2 y2 = None"
  shows "path g x1 y1 x2 y2 passability color =
           Some (g\<lparr>numCallsTo_path := (numCallsTo_path g + 1) mod 2 ^ 32\<rparr>, [])"
proof -
  show ?thesis
  proof (cases "getTile g x1 y1")
    case None
    then show ?thesis by (simp add: path_def Let_def)
  next
    case (Some startTile)
    with assms have "getTile g x2 y2 = None" by simp
    with Some show ?thesis by (simp add: path_def Let_def)
  qed
qed

theorem path_missing_endpoint_witness:
  "path (openMap 3 1) 0 0 5 0 walkableTile 0 = Some ((openMap 3 1)\<lparr>numCallsTo_path := 1\<rparr>, []) \<and>
   path (openMap 3 1) (- 1) 0 2 0 flyableTile 0 = Some ((openMap 3 1)\<lparr>numCallsTo_path := 1\<rparr>, []) \<and>
   getTile (openMap 3 1) 5 0 = None \<and> getTile (openMap 3 1) (- 1) 0 = None"
  using path_missing_endpoint[of "openMap 3 1" 0 0 5 0 walkableTile 0]
        path_missing_endpoint[of "openMap 3 1" "- 1" 0 2 0 flyableTile 0]
  by (simp add: getTile_def openMap_def emptyMap_def)

lemma getTile_inGrid: "getTile g x y = (if inGrid g (x, y) then Some (x, y) else None)"
  by (simp add: getTile_def inGrid_def)

lemma map_filter_getTile:
  "List.map_filter (\<lambda>(a, b). getTile g a b) ps = filter (inGrid g) ps"
  by (induction ps) (auto simp: List.map_filter_simps getTile_inGrid)

lemma getAllNeighbors_eq:
  "getAllNeighbors g t =
     (if inGrid g t
      then filter (inGrid g) [(fst t - 1, snd t), (fst t + 1, snd t), (fst t, snd t - 1), (fst t, snd t + 1)]
      else [])"
  unfolding getAllNeighbors_def neighborTiles_def map_filter_getTile
  by (simp add: getTile_inGrid)

lemma getAllNeighbors_iff:
  "b \<in> set (getAllNeighbors g a) \<longleftrightarrow>
     inGrid g a \<and> inGrid g b \<and> \<bar>fst a - fst b\<bar> + \<bar>snd a - snd b\<bar> = 1"
proof (cases "inGrid g a")
  case False
  then show ?thesis by (simp add: getAllNeighbors_eq)
next
  case True
  have "b \<in> {(fst a - 1, snd a), (fst a + 1, snd a), (fst a, snd a - 1), (fst a, snd a + 1)}
      \<longleftrightarrow> \<bar>fst a - fst b\<bar> + \<bar>snd a - snd b\<bar> = 1"
    by (cases a; cases b) (simp, arith)
  with True show ?thesis by (auto simp: getAllNeighbors_eq)
qed

lemma getAllNeighbors_sym: "b \<in> set (getAllNeighbors g a) \<Longrightarrow> a \<in> set (getAllNeighbors g b)"
  unfolding getAllNeighbors_iff by (simp add: abs_minus_commute)


lemma neighborChain_snoc:
  "neighborChain g c \<Longrightarrow> c \<noteq> [] \<Longrightarrow> t \<in> set (getAllNeighbors g (last c)) \<Longrightarrow>
   neighborChain g (c @ [t])"
  by (induction g c rule: neighborChain.induct) (auto dest: getAllNeighbors_sym)

lemma searchInv_start: "searchInv g startTile (startSearch startTile x1 y1 x2 y2)"
  by (simp add: searchInv_def startSearch_def linked_def setHeuristic_def)

lemma fold_choice_mem:
  "fold (\<lambda>i b. if P i b then i else b) xs b0 \<in> insert b0 (set xs)"
  by (induction xs arbitrary: b0) (auto split: if_splits)

lemma smallestAstar_less: "ol \<noteq> [] \<Longrightarrow> smallestAstar es ol < length ol"
  using fold_choice_mem[of "\<lambda>itr smallest. fCost (es ! (ol ! itr)) < fCost (es ! (ol ! smallest))"
      "[0 ..< length ol]" 0]
  by (auto simp: smallestAstar_def)

lemma split_at_nth:
  "i < length xs \<Longrightarrow> \<exists>ys zs. xs = ys @ xs ! i # zs \<and> take i xs = ys \<and> drop (Suc i) xs = zs"
  using id_take_nth_drop by blast

lemma nth_not_in_rest:
  assumes "distinct xs" and "i < length xs"
  shows "xs ! i \<notin> set (take i xs @ drop (Suc i) xs)"
proof -
  from split_at_nth[OF assms(2)] obtain ys zs
    where *: "xs = ys @ xs ! i # zs" "take i xs = ys" "drop (Suc i) xs = zs" by blast
  from assms(1) *(1) have "distinct (ys @ xs ! i # zs)" by simp
  then show ?thesis unfolding *(2,3) by auto
qed

lemma set_rest_subset: "set (take i xs @ drop (Suc i) xs) \<subseteq> set xs"
  by (auto dest: in_set_takeD in_set_dropD)

lemma distinct_rest:
  assumes "distinct xs"
  shows "distinct (take i xs @ drop (Suc i) xs)"
proof (cases "i < length xs")
  case True
  from split_at_nth[OF True] obtain ys zs
    where *: "xs = ys @ xs ! i # zs" "take i xs = ys" "drop (Suc i) xs = zs" by blast
  from assms *(1) have "distinct (ys @ xs ! i # zs)" by simp
  then show ?thesis unfolding *(2,3) by auto
next
  case False
  with assms show ?thesis by simp
qed

lemma takeSmallest_inv:
  assumes inv: "searchInv g start s" and ne: "openList s \<noteq> []"
    and ts: "takeSmallest s = (c, s1)"
  shows "searchInv g start s1 \<and> c \<in> set (closedList s1) \<and> linked g start (entries s1) (closedList s1) c"
proof -
  let ?i = "smallestAstar (entries s) (openList s)"
  have i: "?i < length (openList s)" using ne by (rule smallestAstar_less)
  from ts have c: "c = openList s ! ?i"
    and s1: "s1 = s\<lparr>openList := take ?i (openList s) @ drop (Suc ?i) (openList s),
                     closedList := closedList s @ [c]\<rparr>"
    by (auto simp: takeSmallest_def Let_def)
  have cin: "c \<in> set (openList s)" using c i by simp
  from inv have d: "distinct (openList s)" and dj: "set (openList s) \<inter> set (closedList s) = {}"
    and ln: "\<And>e. e \<in> set (openList s) \<union> set (closedList s) \<Longrightarrow>
               linked g start (entries s) (closedList s) e"
    and tp: "\<And>k p. k < length (closedList s) \<Longrightarrow>
               entryParent (entries s ! (closedList s ! k)) = Some p \<Longrightarrow>
               p \<in> set (take k (closedList s))"
    by (auto simp: searchInv_def)
  have mono: "linked g start (entries s) (closedList s @ [c]) e"
    if "linked g start (entries s) (closedList s) e" for e
    using that by (cases "entryParent (entries s ! e)") (auto simp: linked_def)
  have 1: "distinct (openList s1)"
    by (simp add: s1 distinct_rest[OF d] del: distinct_append)
  have 2: "set (openList s1) \<inter> set (closedList s1) = {}"
    using dj nth_not_in_rest[OF d i] set_rest_subset[of ?i "openList s"] c
    by (auto simp: s1)
  have 3: "linked g start (entries s1) (closedList s1) e"
    if "e \<in> set (openList s1) \<union> set (closedList s1)" for e
  proof -
    from that set_rest_subset[of ?i "openList s"] cin
    have "e \<in> set (openList s) \<union> set (closedList s)" by (auto simp: s1)
    from mono[OF ln[OF this]] show ?thesis by (simp add: s1)
  qed
  have 4: "p \<in> set (take k (closedList s1))"
    if k: "k < length (closedList s1)"
      and p: "entryParent (entries s1 ! (closedList s1 ! k)) = Some p" for k p
  proof (cases "k < length (closedList s)")
    case True
    with p have "entryParent (entries s ! (closedList s ! k)) = Some p"
      by (simp add: s1 nth_append)
    from tp[OF True this] True show ?thesis by (simp add: s1)
  next
    case False
    with k have keq: "k = length (closedList s)" by (simp add: s1)
    with p have "entryParent (entries s ! c) = Some p" by (simp add: s1)
    with ln[of c] cin have "p \<in> set (closedList s)" by (auto simp: linked_def)
    then show ?thesis by (simp add: s1 keq)
  qed
  have 5: "c \<in> set (closedList s1)" by (simp add: s1)
  from 1 2 3 4 5 show ?thesis unfolding searchInv_def by blast
qed


lemma searchInv_neighbor [simp]: "searchInv g start (s\<lparr>neighbor := nb\<rparr>) = searchInv g start s"
  by (simp add: searchInv_def)

lemma linked_less: "linked g start es cl e \<Longrightarrow> e < length es"
  by (simp add: linked_def)

lemma linked_cong:
  assumes "linked g start es cl e"
    and "length es \<le> length es'"
    and "entryTile (es' ! e) = entryTile (es ! e)"
    and "entryParent (es' ! e) = entryParent (es ! e)"
    and "\<And>p. p \<in> set cl \<Longrightarrow> entryTile (es' ! p) = entryTile (es ! p)"
  shows "linked g start es' cl e"
  using assms by (cases "entryParent (es ! e)") (auto simp: linked_def)

lemma inv_fresh:
  assumes inv: "searchInv g start s" and cin: "c \<in> set (closedList s)"
    and tc: "entryTile (entries s ! c) = Some tc" and n: "n \<in> set (getAllNeighbors g tc)"
    and nb: "entryTile nb = Some n" "entryParent nb = Some c"
    and same: "\<And>e. e < length (entries s) \<Longrightarrow>
        entryTile (es' ! e) = entryTile (entries s ! e) \<and>
        entryParent (es' ! e) = entryParent (entries s ! e)"
    and len: "length es' = length (entries s)"
  shows "searchInv g start (s\<lparr>neighbor := x, entries := es' @ [nb],
            openList := openList s @ [length es']\<rparr>)"
proof -
  let ?s = "s\<lparr>neighbor := x, entries := es' @ [nb], openList := openList s @ [length es']\<rparr>"
  from inv have d: "distinct (openList s)" and dj: "set (openList s) \<inter> set (closedList s) = {}"
    and ln: "\<And>e. e \<in> set (openList s) \<union> set (closedList s) \<Longrightarrow>
               linked g start (entries s) (closedList s) e"
    and tp: "\<And>k p. k < length (closedList s) \<Longrightarrow>
               entryParent (entries s ! (closedList s ! k)) = Some p \<Longrightarrow>
               p \<in> set (take k (closedList s))"
    by (auto simp: searchInv_def)
  have lt: "e < length (entries s)" if "e \<in> set (openList s) \<union> set (closedList s)" for e
    using linked_less[OF ln[OF that]] .
  have old: "entryTile ((es' @ [nb]) ! e) = entryTile (entries s ! e) \<and>
             entryParent ((es' @ [nb]) ! e) = entryParent (entries s ! e)"
    if "e < length (entries s)" for e
    using that same[OF that] by (simp add: nth_append len)
  have fresh: "length es' \<notin> set (openList s) \<union> set (closedList s)"
    using lt len by force
  have 1: "distinct (openList ?s)" using d fresh by simp
  have 2: "set (openList ?s) \<inter> set (closedList ?s) = {}" using dj fresh by simp
  have 3: "linked g start (entries ?s) (closedList ?s) e"
    if "e \<in> set (openList ?s) \<union> set (closedList ?s)" for e
  proof (cases "e = length es'")
    case True
    have "entryTile ((es' @ [nb]) ! c) = Some tc"
      using old[OF lt[of c]] cin tc by simp
    with True nb cin n show ?thesis
      by (simp add: linked_def)
  next
    case False
    with that have e: "e \<in> set (openList s) \<union> set (closedList s)" by auto
    have "linked g start (es' @ [nb]) (closedList s) e"
    proof (rule linked_cong[OF ln[OF e]])
      show "length (entries s) \<le> length (es' @ [nb])" by (simp add: len)
      show "entryTile ((es' @ [nb]) ! e) = entryTile (entries s ! e)"
        using old[OF lt[OF e]] by simp
      show "entryParent ((es' @ [nb]) ! e) = entryParent (entries s ! e)"
        using old[OF lt[OF e]] by simp
      show "entryTile ((es' @ [nb]) ! p) = entryTile (entries s ! p)"
        if "p \<in> set (closedList s)" for p
        using old[OF lt[of p]] that by simp
    qed
    then show ?thesis by simp
  qed
  have 4: "p \<in> set (take k (closedList ?s))"
    if k: "k < length (closedList ?s)"
      and p: "entryParent (entries ?s ! (closedList ?s ! k)) = Some p" for k p
  proof -
    from k have k': "k < length (closedList s)" by simp
    then have "closedList s ! k \<in> set (openList s) \<union> set (closedList s)" by simp
    from old[OF lt[OF this]] p have "entryParent (entries s ! (closedList s ! k)) = Some p"
      by simp
    from tp[OF k' this] show ?thesis by simp
  qed
  from 1 2 3 4 show ?thesis unfolding searchInv_def by blast
qed

lemma inv_update:
  assumes inv: "searchInv g start s" and cin: "c \<in> set (closedList s)"
    and tc: "entryTile (entries s ! c) = Some tc" and n: "n \<in> set (getAllNeighbors g tc)"
    and itr: "itr \<in> set (openList s)" and tn: "entryTile (entries s ! itr) = Some n"
  shows "searchInv g start
           (s\<lparr>entries := (entries s)[itr := (entries s ! itr)\<lparr>entryG := v, entryParent := Some c\<rparr>]\<rparr>)"
proof -
  let ?es = "(entries s)[itr := (entries s ! itr)\<lparr>entryG := v, entryParent := Some c\<rparr>]"
  let ?s = "s\<lparr>entries := ?es\<rparr>"
  from inv have d: "distinct (openList s)" and dj: "set (openList s) \<inter> set (closedList s) = {}"
    and ln: "\<And>e. e \<in> set (openList s) \<union> set (closedList s) \<Longrightarrow>
               linked g start (entries s) (closedList s) e"
    and tp: "\<And>k p. k < length (closedList s) \<Longrightarrow>
               entryParent (entries s ! (closedList s ! k)) = Some p \<Longrightarrow>
               p \<in> set (take k (closedList s))"
    by (auto simp: searchInv_def)
  have lt: "e < length (entries s)" if "e \<in> set (openList s) \<union> set (closedList s)" for e
    using linked_less[OF ln[OF that]] .
  have il: "itr < length (entries s)" using lt itr by simp
  have tile: "entryTile (?es ! e) = entryTile (entries s ! e)" for e
    using il by (cases "e = itr") simp_all
  have par: "entryParent (?es ! e) = entryParent (entries s ! e)" if "e \<noteq> itr" for e
    using that by simp
  have nc: "itr \<notin> set (closedList s)" using itr dj by auto
  have 3: "linked g start (entries ?s) (closedList ?s) e"
    if e: "e \<in> set (openList ?s) \<union> set (closedList ?s)" for e
  proof (cases "e = itr")
    case True
    with il cin tn tc n tile[of c] show ?thesis
      by (simp add: linked_def)
  next
    case False
    from e have e': "e \<in> set (openList s) \<union> set (closedList s)" by simp
    have "linked g start ?es (closedList s) e"
      by (rule linked_cong[OF ln[OF e']]) (simp_all add: tile par[OF False])
    then show ?thesis by simp
  qed
  have 4: "p \<in> set (take k (closedList ?s))"
    if k: "k < length (closedList ?s)"
      and p: "entryParent (entries ?s ! (closedList ?s ! k)) = Some p" for k p
  proof -
    from k have k': "k < length (closedList s)" by simp
    then have "closedList s ! k \<noteq> itr" using nc by (metis nth_mem)
    from par[OF this] p have "entryParent (entries s ! (closedList s ! k)) = Some p" by simp
    from tp[OF k' this] show ?thesis by simp
  qed
  from d dj 3 4 show ?thesis unfolding searchInv_def by simp
qed

lemma processNeighbor_skip:
  "\<not> neighborPassable g passability color n \<or>
   list_ex (\<lambda>e. entryTile (entries s ! e) = Some n) (closedList s) \<or>
   (\<exists>itr. find (\<lambda>e. entryTile (entries s ! e) = Some n) (openList s) = Some itr \<and>
      \<not> entryG (entries s ! c) + 1 < entryG (entries s ! itr)) \<Longrightarrow>
   processNeighbor g passability color x1 y1 c n s =
     s\<lparr>neighbor := (neighbor s)\<lparr>entryTile := Some n\<rparr>\<rparr>"
  by (auto simp: processNeighbor_def Let_def)

lemma processNeighbor_fresh:
  "neighborPassable g passability color n \<Longrightarrow>
   \<not> list_ex (\<lambda>e. entryTile (entries s ! e) = Some n) (closedList s) \<Longrightarrow>
   find (\<lambda>e. entryTile (entries s ! e) = Some n) (openList s) = None \<Longrightarrow>
   processNeighbor g passability color x1 y1 c n s =
     s\<lparr>neighbor := (neighbor s)\<lparr>entryTile := Some n, entryG := entryG (entries s ! c) + 1,
                      entryParent := Some c\<rparr>,
       entries := (entries s)[c := setHeuristic (entries s ! c) x1 y1 (fst n) (snd n)] @
                  [(neighbor s)\<lparr>entryTile := Some n, entryG := entryG (entries s ! c) + 1,
                      entryParent := Some c\<rparr>],
       openList := openList s @ [length (entries s)]\<rparr>"
  by (simp add: processNeighbor_def Let_def)

lemma processNeighbor_update:
  "neighborPassable g passability color n \<Longrightarrow>
   \<not> list_ex (\<lambda>e. entryTile (entries s ! e) = Some n) (closedList s) \<Longrightarrow>
   find (\<lambda>e. entryTile (entries s ! e) = Some n) (openList s) = Some itr \<Longrightarrow>
   entryG (entries s ! c) + 1 < entryG (entries s ! itr) \<Longrightarrow>
   processNeighbor g passability color x1 y1 c n s =
     s\<lparr>neighbor := (neighbor s)\<lparr>entryTile := Some n\<rparr>,
       entries := (entries s)[itr := (entries s ! itr)
          \<lparr>entryG := entryG (entries s ! c) + 1, entryParent := Some c\<rparr>]\<rparr>"
  by (simp add: processNeighbor_def Let_def)

lemma processNeighbor_inv:
  assumes inv: "searchInv g start s" and cin: "c \<in> set (closedList s)"
    and tc: "entryTile (entries s ! c) = Some tc" and n: "n \<in> set (getAllNeighbors g tc)"
  shows "searchInv g start (processNeighbor g passability color x1 y1 c n s) \<and>
         closedList (processNeighbor g passability color x1 y1 c n s) = closedList s \<and>
         entryTile (entries (processNeighbor g passability color x1 y1 c n s) ! c) = Some tc"
proof -
  let ?P = "\<lambda>e. entryTile (entries s ! e) = Some n"
  from inv cin have clt: "c < length (entries s)"
    by (auto simp: searchInv_def dest: linked_less)
  consider (skip) "\<not> neighborPassable g passability color n \<or> list_ex ?P (closedList s) \<or>
        (\<exists>itr. find ?P (openList s) = Some itr \<and>
           \<not> entryG (entries s ! c) + 1 < entryG (entries s ! itr))"
    | (fresh) "neighborPassable g passability color n"
        "\<not> list_ex ?P (closedList s)" "find ?P (openList s) = None"
    | (update) itr where "neighborPassable g passability color n"
        "\<not> list_ex ?P (closedList s)" "find ?P (openList s) = Some itr"
        "entryG (entries s ! c) + 1 < entryG (entries s ! itr)"
    by (cases "find ?P (openList s)") blast+
  then show ?thesis
  proof cases
    case skip
    from processNeighbor_skip[OF skip] inv tc show ?thesis by simp
  next
    case fresh
    let ?nb = "(neighbor s)\<lparr>entryTile := Some n, entryG := entryG (entries s ! c) + 1,
                  entryParent := Some c\<rparr>"
    let ?es = "(entries s)[c := setHeuristic (entries s ! c) x1 y1 (fst n) (snd n)]"
    note r = processNeighbor_fresh[OF fresh]
    have same: "entryTile (?es ! e) = entryTile (entries s ! e) \<and>
        entryParent (?es ! e) = entryParent (entries s ! e)" if "e < length (entries s)" for e
      using that by (cases "e = c") (simp_all add: setHeuristic_def)
    have "searchInv g start (s\<lparr>neighbor := ?nb, entries := ?es @ [?nb],
            openList := openList s @ [length ?es]\<rparr>)"
      by (rule inv_fresh[OF inv cin tc n _ _ same]) simp_all
    moreover have "entryTile ((?es @ [?nb]) ! c) = Some tc"
      using clt tc by (simp add: nth_append setHeuristic_def)
    ultimately show ?thesis by (simp add: r)
  next
    case update
    from update(3) have itr: "itr \<in> set (openList s)" and tn: "?P itr"
      by (auto simp: find_Some_iff)
    from inv itr have il: "itr < length (entries s)"
      by (auto simp: searchInv_def dest: linked_less)
    let ?es = "(entries s)[itr := (entries s ! itr)
        \<lparr>entryG := entryG (entries s ! c) + 1, entryParent := Some c\<rparr>]"
    note r = processNeighbor_update[OF update]
    have "searchInv g start (s\<lparr>entries := ?es\<rparr>)"
      by (rule inv_update[OF inv cin tc n itr tn])
    moreover have "entryTile (?es ! c) = Some tc"
      using tc il by (cases "c = itr") simp_all
    ultimately show ?thesis by (simp add: r searchInv_def)
  qed
qed


lemma expand_inv:
  assumes "searchInv g start s" and "c \<in> set (closedList s)"
    and "entryTile (entries s ! c) = Some tc" and "set ns \<subseteq> set (getAllNeighbors g tc)"
  shows "searchInv g start (fold (processNeighbor g passability color x1 y1 c) ns s)"
  using assms
proof (induction ns arbitrary: s)
  case Nil
  then show ?case by simp
next
  case (Cons n ns)
  from Cons.prems(4) have n: "n \<in> set (getAllNeighbors g tc)"
    and ns: "set ns \<subseteq> set (getAllNeighbors g tc)" by auto
  from processNeighbor_inv[OF Cons.prems(1-3) n, of passability color x1 y1]
  show ?case using Cons.IH[OF _ _ _ ns] Cons.prems(2) by simp
qed

lemma astarLoop_inv:
  assumes "astarLoop g passability color x1 y1 destination s = Some r"
  shows "searchInv g start s \<longrightarrow>
         searchInv g start (snd r) \<and>
         (fst r \<longrightarrow> (\<exists>e \<in> set (closedList (snd r)). entryTile (entries (snd r) ! e) = Some destination))"
proof (rule astarLoop.raw_induct[OF _ assms,
      where P = "\<lambda>g passability color x1 y1 destination s r. searchInv g start s \<longrightarrow>
         searchInv g start (snd r) \<and>
         (fst r \<longrightarrow> (\<exists>e \<in> set (closedList (snd r)).
             entryTile (entries (snd r) ! e) = Some destination))"], goal_cases)
  case (1 loop g passability color x1 y1 destination s r)
  note IH = 1(1) and eq = 1(2)
  show ?case
  proof
    assume inv: "searchInv g start s"
    show "searchInv g start (snd r) \<and>
         (fst r \<longrightarrow> (\<exists>e \<in> set (closedList (snd r)). entryTile (entries (snd r) ! e) = Some destination))"
    proof (cases "openList s = []")
      case True
      with eq inv show ?thesis by auto
    next
      case False
      obtain c s1 where ts: "takeSmallest s = (c, s1)" by (cases "takeSmallest s")
      from takeSmallest_inv[OF inv False ts]
      have inv1: "searchInv g start s1" and cin: "c \<in> set (closedList s1)"
        and lk: "linked g start (entries s1) (closedList s1) c" by auto
      from lk obtain t where t: "entryTile (entries s1 ! c) = Some t"
        by (cases "entryParent (entries s1 ! c)") (auto simp: linked_def)
      show ?thesis
      proof (cases "t = destination")
        case True
        with eq False ts t have "r = (True, s1)" by simp
        with inv1 cin t True show ?thesis by auto
      next
        case ne: False
        with eq False ts t
        have "loop g passability color x1 y1 destination
                (expand g passability color x1 y1 c t s1) = Some r" by simp
        from IH[OF this] expand_inv[OF inv1 cin t subset_refl, of passability color x1 y1]
        show ?thesis by (simp add: expand_def)
      qed
    qed
  qed
qed

lemma followParents_closed:
  assumes inv: "searchInv g start s"
  shows "k < length (closedList s) \<Longrightarrow>
    \<exists>c. (\<forall>acc. followParents (entries s) (closedList s ! k) acc = Some (c @ acc)) \<and>
        c \<noteq> [] \<and> hd c = start \<and> entryTile (entries s ! (closedList s ! k)) = Some (last c) \<and>
        neighborChain g c"
proof (induction k rule: less_induct)
  case (less k)
  let ?e = "closedList s ! k"
  from inv less.prems have lk: "linked g start (entries s) (closedList s) ?e"
    by (auto simp: searchInv_def)
  show ?case
  proof (cases "entryParent (entries s ! ?e)")
    case None
    with lk have t: "entryTile (entries s ! ?e) = Some start" by (simp add: linked_def)
    have "\<forall>acc. followParents (entries s) ?e acc = Some ([start] @ acc)"
      using None t by (subst followParents.simps) simp
    with t show ?thesis by (intro exI[of _ "[start]"]) simp
  next
    case (Some p)
    with lk obtain t tp where pc: "p \<in> set (closedList s)"
      and t: "entryTile (entries s ! ?e) = Some t" and tp: "entryTile (entries s ! p) = Some tp"
      and nb: "t \<in> set (getAllNeighbors g tp)"
      by (auto simp: linked_def)
    from inv less.prems Some have "p \<in> set (take k (closedList s))"
      by (auto simp: searchInv_def)
    then obtain j where j: "j < k" "closedList s ! j = p"
      using less.prems by (auto simp: in_set_conv_nth)
    from less.IH[OF j(1)] j less.prems obtain c where
      c: "\<forall>acc. followParents (entries s) p acc = Some (c @ acc)" "c \<noteq> []" "hd c = start"
        "entryTile (entries s ! p) = Some (last c)" "neighborChain g c"
      by auto
    from c(4) tp have lc: "last c = tp" by simp
    have "\<forall>acc. followParents (entries s) ?e acc = Some ((c @ [t]) @ acc)"
      using Some t c(1) by (subst followParents.simps) simp
    moreover have "neighborChain g (c @ [t])"
      using neighborChain_snoc[OF c(5) c(2)] nb lc by simp
    ultimately show ?thesis
      using c(2,3) t by (intro exI[of _ "c @ [t]"]) simp
  qed
qed

lemma neighborChain_counter [simp]:
  "neighborChain (g\<lparr>numCallsTo_path := k\<rparr>) p = neighborChain g p"
  by (induction g p rule: neighborChain.induct)
     (simp_all add: getAllNeighbors_def neighborTiles_def getTile_def)

lemma path_found:
  assumes "path g x1 y1 x2 y2 passability color = Some (g', p)" and "p \<noteq> []"
  shows "\<exists>startTile destination s itr.
    getTile g x1 y1 = Some startTile \<and> getTile g x2 y2 = Some destination \<and>
    astarLoop (g\<lparr>numCallsTo_path := (numCallsTo_path g + 1) mod 2 ^ 32\<rparr>) passability color
       x1 y1 destination (startSearch startTile x1 y1 x2 y2) = Some (True, s) \<and>
    find (\<lambda>e. entryTile (entries s ! e) = Some destination) (closedList s) = Some itr \<and>
    followParents (entries s) itr [] = Some p"
proof -
  let ?g = "g\<lparr>numCallsTo_path := (numCallsTo_path g + 1) mod 2 ^ 32\<rparr>"
  have gt: "getTile ?g a b = getTile g a b" for a b by (simp add: getTile_def)
  note p = assms(1)[unfolded path_def Let_def gt]
  from p assms(2) obtain startTile where st: "getTile g x1 y1 = Some startTile"
    by (cases "getTile g x1 y1") auto
  from p assms(2) st obtain destination where de: "getTile g x2 y2 = Some destination"
    by (cases "getTile g x2 y2") (auto split: if_splits)
  from p assms(2) st de obtain f s where
    loop: "astarLoop ?g passability color x1 y1 destination (startSearch startTile x1 y1 x2 y2)
            = Some (f, s)"
    by (cases "astarLoop ?g passability color x1 y1 destination (startSearch startTile x1 y1 x2 y2)")
       (auto split: if_splits)
  from p assms(2) st de loop have f: "f" by (auto split: if_splits)
  from p assms(2) st de loop f obtain itr where
    itr: "find (\<lambda>e. entryTile (entries s ! e) = Some destination) (closedList s) = Some itr"
    by (cases "find (\<lambda>e. entryTile (entries s ! e) = Some destination) (closedList s)")
       (auto split: if_splits)
  from p assms(2) st de loop f itr have "followParents (entries s) itr [] = Some p"
    by (cases "followParents (entries s) itr []") (auto split: if_splits)
  with st de loop f itr show ?thesis by auto
qed

text \<open>
  Claim C9. A list that \<^verbatim>\<open>path\<close> returns, when it is not empty, starts with the tile at
  \<open>(x1, y1)\<close>, ends with the tile at \<open>(x2, y2)\<close>, and every two consecutive tiles of it
  are neighbors of each other on the grid.
\<close>

theorem path_connects:
  assumes "path g x1 y1 x2 y2 passability color = Some (g', p)" and "p \<noteq> []"
  shows "getTile g x1 y1 = Some (hd p) \<and> getTile g x2 y2 = Some (last p) \<and> neighborChain g p"
proof -
  let ?g = "g\<lparr>numCallsTo_path := (numCallsTo_path g + 1) mod 2 ^ 32\<rparr>"
  from path_found[OF assms] obtain startTile destination s itr where
    st: "getTile g x1 y1 = Some startTile" and de: "getTile g x2 y2 = Some destination"
    and loop: "astarLoop ?g passability color x1 y1 destination
                 (startSearch startTile x1 y1 x2 y2) = Some (True, s)"
    and itr: "find (\<lambda>e. entryTile (entries s ! e) = Some destination) (closedList s) = Some itr"
    and fp: "followParents (entries s) itr [] = Some p"
    by blast
  from astarLoop_inv[OF loop, of startTile] searchInv_start
  have inv: "searchInv ?g startTile s" by simp
  from itr obtain k where k: "k < length (closedList s)" "closedList s ! k = itr"
    and ti: "entryTile (entries s ! itr) = Some destination"
    by (auto simp: find_Some_iff)
  from followParents_closed[OF inv k(1)] k(2) obtain c where
    c: "\<forall>acc. followParents (entries s) itr acc = Some (c @ acc)" "c \<noteq> []" "hd c = startTile"
       "entryTile (entries s ! itr) = Some (last c)" "neighborChain ?g c"
    by auto
  from c(1) fp have "p = c" by simp
  with c ti st de show ?thesis by simp
qed

theorem path_connects_witness:
  "path (openMap 3 1) 0 0 2 0 walkableTile 0 =
     Some ((openMap 3 1)\<lparr>numCallsTo_path := 1\<rparr>, [(0, 0), (1, 0), (2, 0)]) \<and>
   getTile (openMap 3 1) 0 0 = Some (0, 0) \<and> getTile (openMap 3 1) 2 0 = Some (2, 0) \<and>
   neighborChain (openMap 3 1) [(0, 0), (1, 0), (2, 0)]"
proof -
  have eq: "path (openMap 3 1) 0 0 2 0 walkableTile 0 =
     Some ((openMap 3 1)\<lparr>numCallsTo_path := 1\<rparr>, [(0, 0), (1, 0), (2, 0)])"
    by (simp add: path_def astarLoop.simps followParents.simps expand_def getAllNeighbors_def
        neighborTiles_def getTile_def List.map_filter_simps processNeighbor_def
        neighborPassable_def takeSmallest_def smallestAstar_def startSearch_def
        setHeuristic_def fCost_def openMap_def emptyMap_def Let_def)
  from path_connects[OF eq] eq show ?thesis by simp
qed

text \<open>
  Claim C3. The comment of line 997 announces the Manhattan distance as the heuristic, but
  line 998 calls \<^verbatim>\<open>setHeuristic\<close> on \<^verbatim>\<open>currentEntry\<close>, with the start coordinates
  and the neighbor's, and the entry that is pushed on the open set is a copy of the scratch
  entry, whose \<open>h\<close> is never set. On an open grid of three tiles in a row, a search from
  \<open>(0, 0)\<close> to \<open>(2, 0)\<close> starts with \<open>h = 2\<close> on the start entry; after the first
  expansion the open set holds the entry of \<open>(1, 0)\<close> with \<open>g = 1\<close> and \<open>h = 0\<close>, where
  the distance to the goal is one, and the \<open>h\<close> of the start entry has become one.
\<close>

theorem path_heuristic_of_neighbor:
  "map (\<lambda>e. (entryTile e, entryG e, entryH e))
     (entries (expand (openMap 3 1) walkableTile 0 0 0 0 (0, 0)
                 (snd (takeSmallest (startSearch (0, 0) 0 0 2 0))))) =
     [(Some (0, 0), 0, 1), (Some (1, 0), 1, 0)] \<and>
   openList (expand (openMap 3 1) walkableTile 0 0 0 0 (0, 0)
                 (snd (takeSmallest (startSearch (0, 0) 0 0 2 0)))) = [1] \<and>
   map entryH (entries (startSearch (0, 0) 0 0 2 0)) = [2]"
  by (simp add: expand_def getAllNeighbors_def neighborTiles_def getTile_def
      List.map_filter_simps processNeighbor_def neighborPassable_def takeSmallest_def
      smallestAstar_def startSearch_def setHeuristic_def fCost_def openMap_def emptyMap_def Let_def)

section \<open>Flood filling and the connectivity colors\<close>

subsection \<open>Maps with the same layout\<close>

lemma sameLayout_refl [simp]: "sameLayout g g"
  by (simp add: sameLayout_def)

lemma sameLayout_trans: "sameLayout g g' \<Longrightarrow> sameLayout g' g'' \<Longrightarrow> sameLayout g g''"
  by (simp add: sameLayout_def)

lemma sameLayout_sym: "sameLayout g g' \<Longrightarrow> sameLayout g' g"
  by (simp add: sameLayout_def)

lemma sameLayout_inGrid: "sameLayout g g' \<Longrightarrow> inGrid g' t = inGrid g t"
  by (simp add: sameLayout_def inGrid_def)

lemma sameLayout_neighbors: "sameLayout g g' \<Longrightarrow> getAllNeighbors g' t = getAllNeighbors g t"
  by (simp add: getAllNeighbors_eq sameLayout_inGrid cong: filter_cong)

lemma sameLayout_walkable: "sameLayout g g' \<Longrightarrow> walkableTileAt g' t = walkableTileAt g t"
  by (simp add: walkableTileAt_def sameLayout_inGrid)
     (simp add: sameLayout_def del: split_paired_All)

lemma sameLayout_reachable_imp:
  "walkableReachable g a b \<Longrightarrow> sameLayout g g' \<Longrightarrow> walkableReachable g' a b"
  by (induction rule: walkableReachable.induct)
     (auto intro: walkableReachable.intros simp: sameLayout_walkable sameLayout_neighbors)

lemma sameLayout_reachable:
  "sameLayout g g' \<Longrightarrow> walkableReachable g' a b = walkableReachable g a b"
  using sameLayout_reachable_imp sameLayout_sym by blast

lemma sameGrid_layout: "sameGrid g g' \<Longrightarrow> sameLayout g g'"
  by (simp add: sameGrid_def)

lemma sameGrid_refl [simp]: "sameGrid g g"
  by (simp add: sameGrid_def)

lemma sameGrid_trans: "sameGrid g g' \<Longrightarrow> sameGrid g' g'' \<Longrightarrow> sameGrid g g''"
  by (auto simp: sameGrid_def intro: sameLayout_trans)

lemmas sameGrid_neighbors = sameLayout_neighbors[OF sameGrid_layout]
  and sameGrid_walkable = sameLayout_walkable[OF sameGrid_layout]
  and sameGrid_reachable = sameLayout_reachable[OF sameGrid_layout]

lemma reachable_walkable: "walkableReachable g a b \<Longrightarrow> walkableTileAt g a \<and> walkableTileAt g b"
  by (induction rule: walkableReachable.induct) auto

lemma reachable_trans:
  "walkableReachable g b c \<Longrightarrow> walkableReachable g a b \<Longrightarrow> walkableReachable g a c"
  by (induction rule: walkableReachable.induct) (auto intro: walkableReachable.step)

lemma reachable_neighbor:
  "walkableTileAt g a \<Longrightarrow> walkableTileAt g b \<Longrightarrow> b \<in> set (getAllNeighbors g a) \<Longrightarrow>
   walkableReachable g a b"
  by (blast intro: walkableReachable.intros)

lemma reachable_sym: "walkableReachable g a b \<Longrightarrow> walkableReachable g b a"
proof (induction rule: walkableReachable.induct)
  case here
  then show ?case by (rule walkableReachable.here)
next
  case (step b c)
  from reachable_walkable[OF step.hyps(1)] have "walkableTileAt g b" by simp
  with step.hyps(2,3) have "walkableReachable g c b"
    by (intro reachable_neighbor) (auto dest: getAllNeighbors_sym)
  with step.IH show ?case by (blast intro: reachable_trans)
qed

lemma finite_inGrid: "finite {t. inGrid g t}"
proof -
  have "{t. inGrid g t} \<subseteq> {0 ..< mMapSizeX g} \<times> {0 ..< mMapSizeY g}"
    by (auto simp: inGrid_def)
  then show ?thesis by (rule finite_subset) simp
qed

lemma card_inGrid: "card {t. inGrid g t} \<le> nat (mMapSizeX g * mMapSizeY g)"
proof -
  have "{t. inGrid g t} \<subseteq> {0 ..< mMapSizeX g} \<times> {0 ..< mMapSizeY g}"
    by (auto simp: inGrid_def)
  then have "card {t. inGrid g t} \<le> card ({0 ..< mMapSizeX g} \<times> {0 ..< mMapSizeY g})"
    by (intro card_mono) simp_all
  also have "\<dots> = nat (mMapSizeX g) * nat (mMapSizeY g)" by (simp add: card_cartesian_product)
  also have "\<dots> \<le> nat (mMapSizeX g * mMapSizeY g)"
    by (cases "0 \<le> mMapSizeX g"; cases "0 \<le> mMapSizeY g") (simp_all add: nat_mult_distrib)
  finally show ?thesis .
qed

lemma finite_uncolored: "finite (uncolored c g)"
  by (rule finite_subset[OF _ finite_inGrid[of g]]) (auto simp: uncolored_def walkableTileAt_def)

lemma card_uncolored: "card (uncolored c g) \<le> nat (mMapSizeX g * mMapSizeY g)"
proof -
  have "card (uncolored c g) \<le> card {t. inGrid g t}"
    by (intro card_mono finite_inGrid) (auto simp: uncolored_def walkableTileAt_def)
  with card_inGrid[of g] show ?thesis by simp
qed


subsection \<open>One flood fill\<close>

lemma floodsI:
  assumes "sameGrid g g'"
    and "\<And>t. colorOf g' t = colorOf g t \<or> (colorOf g' t = c \<and> (\<exists>s \<in> from. walkableReachable g s t))"
    and "\<And>t n. colorOf g' t = c \<Longrightarrow> colorOf g t \<noteq> c \<Longrightarrow> walkableTileAt g n \<Longrightarrow>
           n \<in> set (getAllNeighbors g t) \<Longrightarrow> colorOf g' n = c"
  shows "floods c g from g'"
  using assms unfolding floods_def by blast

lemma floods_sameGrid: "floods c g from g' \<Longrightarrow> sameGrid g g'"
  unfolding floods_def by blast

lemma floods_color:
  "floods c g from g' \<Longrightarrow>
   colorOf g' t = colorOf g t \<or> (colorOf g' t = c \<and> (\<exists>s \<in> from. walkableReachable g s t))"
  unfolding floods_def by blast

lemma floods_closed:
  "floods c g from g' \<Longrightarrow> colorOf g' t = c \<Longrightarrow> colorOf g t \<noteq> c \<Longrightarrow> walkableTileAt g n \<Longrightarrow>
   n \<in> set (getAllNeighbors g t) \<Longrightarrow> colorOf g' n = c"
  unfolding floods_def by blast

lemma floods_refl [simp]: "floods c g from g"
  by (rule floodsI) simp_all

lemma floods_keeps: "floods c g from g' \<Longrightarrow> colorOf g t = c \<Longrightarrow> colorOf g' t = c"
  using floods_color by metis

lemma floods_uncolored: "floods c g from g' \<Longrightarrow> uncolored c g' \<subseteq> uncolored c g"
  using floods_keeps[of c g "from" g'] sameGrid_walkable[OF floods_sameGrid, of c g "from" g']
  unfolding uncolored_def by blast

lemma floods_card: "floods c g from g' \<Longrightarrow> card (uncolored c g') \<le> card (uncolored c g)"
  by (intro card_mono finite_uncolored floods_uncolored)

lemma floods_compose:
  assumes 1: "floods c g A g1" and 2: "floods c g1 B g2"
  shows "floods c g (A \<union> B) g2"
proof (rule floodsI)
  note sg = floods_sameGrid[OF 1] and sg2 = floods_sameGrid[OF 2]
  show "sameGrid g g2" by (rule sameGrid_trans[OF sg sg2])
  show "colorOf g2 t = colorOf g t \<or> (colorOf g2 t = c \<and> (\<exists>s \<in> A \<union> B. walkableReachable g s t))"
    for t
    using floods_color[OF 1, of t] floods_color[OF 2, of t] sameGrid_reachable[OF sg]
    by auto
  show "colorOf g2 n = c"
    if t: "colorOf g2 t = c" "colorOf g t \<noteq> c"
      and n: "walkableTileAt g n" "n \<in> set (getAllNeighbors g t)" for t n
  proof (cases "colorOf g1 t = c")
    case True
    from floods_closed[OF 1 True t(2) n] floods_keeps[OF 2] show ?thesis by simp
  next
    case False
    from n have "walkableTileAt g1 n" "n \<in> set (getAllNeighbors g1 t)"
      by (simp_all add: sameGrid_walkable[OF sg] sameGrid_neighbors[OF sg])
    from floods_closed[OF 2 t(1) False this] show ?thesis .
  qed
qed

lemma floodNeighbors_floods:
  assumes IH: "\<And>g x y. floodFillEnabled g \<Longrightarrow> colorOf g (x, y) \<noteq> c \<Longrightarrow>
      card (uncolored c g) < d \<Longrightarrow>
      \<exists>k g'. doFloodFill d g x y passability c = Some (k, g') \<and> floods c g {(x, y)} g' \<and>
             (walkableTileAt g (x, y) \<longrightarrow> colorOf g' (x, y) = c)"
  shows "floodFillEnabled g \<Longrightarrow> card (uncolored c g) < d \<Longrightarrow>
     \<exists>k' g'. floodNeighbors (\<lambda>g n. doFloodFill d g (fst n) (snd n) passability c) c ns k g = Some (k', g') \<and>
        floods c g (set ns) g' \<and> (\<forall>n \<in> set ns. walkableTileAt g n \<longrightarrow> colorOf g' n = c)"
proof (induction ns arbitrary: g k)
  case Nil
  then show ?case by simp
next
  case (Cons n ns)
  show ?case
  proof (cases "colorOf g n = c")
    case True
    from Cons.IH[OF Cons.prems, of k] obtain k' g' where
      r: "floodNeighbors (\<lambda>g n. doFloodFill d g (fst n) (snd n) passability c) c ns k g = Some (k', g')"
      and f: "floods c g (set ns) g'"
      and p: "\<forall>n \<in> set ns. walkableTileAt g n \<longrightarrow> colorOf g' n = c" by blast
    from floods_compose[OF floods_refl[of c g "{n}"] f] have "floods c g (set (n # ns)) g'" by simp
    moreover from floods_keeps[OF f True] p
    have "\<forall>m \<in> set (n # ns). walkableTileAt g m \<longrightarrow> colorOf g' m = c" by simp
    ultimately show ?thesis using r True by (simp add: colorOf_def)
  next
    case False
    from IH[OF Cons.prems(1) _ Cons.prems(2), of "fst n" "snd n"] False obtain k1 g1 where
      r1: "doFloodFill d g (fst n) (snd n) passability c = Some (k1, g1)"
      and f1: "floods c g {n} g1"
      and p1: "walkableTileAt g n \<longrightarrow> colorOf g1 n = c" by auto
    from f1 have sg: "sameGrid g g1" by (rule floods_sameGrid)
    then have en: "floodFillEnabled g1" using Cons.prems(1) by (simp add: sameGrid_def)
    from floods_card[OF f1] Cons.prems(2) have cd: "card (uncolored c g1) < d" by simp
    from Cons.IH[OF en cd, of "k + k1"] obtain k' g' where
      r: "floodNeighbors (\<lambda>g n. doFloodFill d g (fst n) (snd n) passability c) c ns (k + k1) g1 = Some (k', g')"
      and f: "floods c g1 (set ns) g'"
      and p: "\<forall>n \<in> set ns. walkableTileAt g1 n \<longrightarrow> colorOf g' n = c" by blast
    from floods_compose[OF f1 f] have "floods c g (set (n # ns)) g'" by simp
    moreover from p1 floods_keeps[OF f] p sameGrid_walkable[OF sg]
    have "\<forall>m \<in> set (n # ns). walkableTileAt g m \<longrightarrow> colorOf g' m = c" by auto
    ultimately show ?thesis using r r1 False by (simp add: colorOf_def)
  qed
qed


lemma neighborTiles_getAllNeighbors: "neighborTiles g x y = getAllNeighbors g (x, y)"
  by (simp add: getAllNeighbors_def)

lemma doFloodFill_floods:
  "floodFillEnabled g \<Longrightarrow> 0 \<le> c \<Longrightarrow> colorOf g (x, y) \<noteq> c \<Longrightarrow> card (uncolored c g) < depth \<Longrightarrow>
   \<exists>k g'. doFloodFill depth g x y passability c = Some (k, g') \<and> floods c g {(x, y)} g' \<and>
          (walkableTileAt g (x, y) \<longrightarrow> colorOf g' (x, y) = c)"
proof (induction depth arbitrary: g x y)
  case 0
  then show ?case by simp
next
  case (Suc d)
  note en = Suc.prems(1) and c0 = Suc.prems(2) and nc = Suc.prems(3) and cd = Suc.prems(4)
  show ?case
  proof (cases "walkableTileAt g (x, y)")
    case False
    show ?thesis
    proof (cases "inGrid g (x, y)")
      case True
      with False have "tilePassability (tiles g (x, y)) \<noteq> walkableTile"
        by (simp add: walkableTileAt_def)
      with True en c0 False show ?thesis
        by (simp add: getTile_inGrid)
    next
      case ng: False
      then have "getAllNeighbors g (x, y) = []" by (simp add: getAllNeighbors_eq)
      with ng en c0 False show ?thesis
        by (simp add: getTile_inGrid neighborTiles_getAllNeighbors)
    qed
  next
    case True
    then have ig: "inGrid g (x, y)" and wk: "tilePassability (tiles g (x, y)) = walkableTile"
      by (simp_all add: walkableTileAt_def)
    define g2 where
      "g2 = g\<lparr>tiles := (tiles g)((x, y) := (tiles g (x, y))\<lparr>floodFillColor := c\<rparr>)\<rparr>"
    have sg: "sameGrid g g2" by (simp add: sameGrid_def sameLayout_def g2_def)
    have col2: "colorOf g2 t = (if t = (x, y) then c else colorOf g t)" for t
      by (simp add: colorOf_def g2_def)
    have en2: "floodFillEnabled g2" using en by (simp add: g2_def)
    have u2: "uncolored c g2 = uncolored c g - {(x, y)}"
      unfolding uncolored_def using sameGrid_walkable[OF sg] col2 by auto
    have us: "(x, y) \<in> uncolored c g" using True nc by (simp add: uncolored_def)
    have "card (uncolored c g2) < card (uncolored c g)"
      unfolding u2 by (rule card_Diff1_less[OF finite_uncolored us])
    with cd have cd2: "card (uncolored c g2) < d" by simp
    have IH: "\<exists>k g'. doFloodFill d g x y passability c = Some (k, g') \<and> floods c g {(x, y)} g' \<and>
             (walkableTileAt g (x, y) \<longrightarrow> colorOf g' (x, y) = c)"
      if "floodFillEnabled g" "colorOf g (x, y) \<noteq> c" "card (uncolored c g) < d" for g x y
      using Suc.IH[OF that(1) c0 that(2,3)] .
    from floodNeighbors_floods[of c d passability g2 "getAllNeighbors g (x, y)" 1, OF IH en2 cd2]
    obtain k' g' where
      r: "floodNeighbors (\<lambda>g n. doFloodFill d g (fst n) (snd n) passability c) c
            (getAllNeighbors g (x, y)) 1 g2 = Some (k', g')"
      and f: "floods c g2 (set (getAllNeighbors g (x, y))) g'"
      and p: "\<forall>n \<in> set (getAllNeighbors g (x, y)). walkableTileAt g2 n \<longrightarrow> colorOf g' n = c"
      by blast
    have res: "doFloodFill (Suc d) g x y passability c = Some (k', g')"
      using en c0 ig wk r sameGrid_neighbors[OF sg, of "(x, y)"]
      by (simp add: getTile_inGrid neighborTiles_getAllNeighbors g2_def[symmetric] Let_def)
    have cs: "colorOf g' (x, y) = c" using floods_keeps[OF f, of "(x, y)"] col2 by simp
    have "floods c g {(x, y)} g'"
    proof (rule floodsI)
      show "sameGrid g g'" by (rule sameGrid_trans[OF sg floods_sameGrid[OF f]])
      show "colorOf g' t = colorOf g t \<or>
            (colorOf g' t = c \<and> (\<exists>s \<in> {(x, y)}. walkableReachable g s t))" for t
      proof (cases "t = (x, y)")
        case True
        with cs \<open>walkableTileAt g (x, y)\<close> show ?thesis
          by (auto intro: walkableReachable.here)
      next
        case False
        from floods_color[OF f, of t]
        consider "colorOf g' t = colorOf g2 t"
          | n where "colorOf g' t = c" "n \<in> set (getAllNeighbors g (x, y))" "walkableReachable g2 n t"
          by blast
        then show ?thesis
        proof cases
          case 1
          with False col2 show ?thesis by simp
        next
          case 2
          from 2(3) have nt: "walkableReachable g n t" by (simp add: sameGrid_reachable[OF sg])
          from reachable_walkable[OF nt] have "walkableTileAt g n" by simp
          with \<open>walkableTileAt g (x, y)\<close> 2(2) have "walkableReachable g (x, y) n"
            by (intro reachable_neighbor)
          with nt have "walkableReachable g (x, y) t" by (blast intro: reachable_trans)
          with 2(1) show ?thesis by simp
        qed
      qed
      show "colorOf g' n = c"
        if t: "colorOf g' t = c" "colorOf g t \<noteq> c"
          and n: "walkableTileAt g n" "n \<in> set (getAllNeighbors g t)" for t n
      proof (cases "t = (x, y)")
        case True
        with p n show ?thesis by (simp add: sameGrid_walkable[OF sg])
      next
        case False
        with t(2) col2 have "colorOf g2 t \<noteq> c" by simp
        moreover from n have "walkableTileAt g2 n" "n \<in> set (getAllNeighbors g2 t)"
          by (simp_all add: sameGrid_walkable[OF sg] sameGrid_neighbors[OF sg])
        ultimately show ?thesis using floods_closed[OF f t(1)] by blast
      qed
    qed
    with res cs show ?thesis by blast
  qed
qed

subsection \<open>The invariant of the loop over the tiles\<close>

lemma partitionedI:
  assumes "0 \<le> mUniqueNumberFloodFilling g" and "floodFillEnabled g"
    and "\<And>t. inGrid g t \<Longrightarrow> colorOf g t \<noteq> - 1 \<Longrightarrow>
           walkableTileAt g t \<and> 0 \<le> colorOf g t \<and> colorOf g t \<le> mUniqueNumberFloodFilling g"
    and "\<And>t n. inGrid g t \<Longrightarrow> colorOf g t \<noteq> - 1 \<Longrightarrow> walkableTileAt g n \<Longrightarrow>
           n \<in> set (getAllNeighbors g t) \<Longrightarrow> colorOf g n = colorOf g t"
    and "\<And>a b. inGrid g a \<Longrightarrow> inGrid g b \<Longrightarrow> colorOf g a \<noteq> - 1 \<Longrightarrow>
           colorOf g b = colorOf g a \<Longrightarrow> walkableReachable g a b"
    and "\<And>t. t \<in> done \<Longrightarrow> walkableTileAt g t \<Longrightarrow> colorOf g t \<noteq> - 1"
  shows "partitioned g done"
  using assms unfolding partitioned_def by blast

lemma partitioned_counter: "partitioned g done \<Longrightarrow> 0 \<le> mUniqueNumberFloodFilling g"
  unfolding partitioned_def by blast

lemma partitioned_enabled: "partitioned g done \<Longrightarrow> floodFillEnabled g"
  unfolding partitioned_def by blast

lemma partitioned_colored:
  "partitioned g done \<Longrightarrow> inGrid g t \<Longrightarrow> colorOf g t \<noteq> - 1 \<Longrightarrow>
   walkableTileAt g t \<and> 0 \<le> colorOf g t \<and> colorOf g t \<le> mUniqueNumberFloodFilling g"
  unfolding partitioned_def by blast

lemma partitioned_neighbor:
  "partitioned g done \<Longrightarrow> inGrid g t \<Longrightarrow> colorOf g t \<noteq> - 1 \<Longrightarrow> walkableTileAt g n \<Longrightarrow>
   n \<in> set (getAllNeighbors g t) \<Longrightarrow> colorOf g n = colorOf g t"
  unfolding partitioned_def by blast

lemma partitioned_same:
  "partitioned g done \<Longrightarrow> inGrid g a \<Longrightarrow> inGrid g b \<Longrightarrow> colorOf g a \<noteq> - 1 \<Longrightarrow>
   colorOf g b = colorOf g a \<Longrightarrow> walkableReachable g a b"
  unfolding partitioned_def by blast

lemma partitioned_done:
  "partitioned g done \<Longrightarrow> t \<in> done \<Longrightarrow> walkableTileAt g t \<Longrightarrow> colorOf g t \<noteq> - 1"
  unfolding partitioned_def by blast

lemma walkable_inGrid: "walkableTileAt g t \<Longrightarrow> inGrid g t"
  by (simp add: walkableTileAt_def)

lemma partitioned_reachable:
  assumes "partitioned g done"
  shows "walkableReachable g a b \<Longrightarrow> colorOf g a \<noteq> - 1 \<Longrightarrow> colorOf g b = colorOf g a"
proof (induction rule: walkableReachable.induct)
  case here
  then show ?case by simp
next
  case (step b n)
  from reachable_walkable[OF step.hyps(1)] have "inGrid g b" by (blast intro: walkable_inGrid)
  with partitioned_neighbor[OF assms, of b n] step show ?case by simp
qed

lemma doFloodFill_fresh:
  "floodFillEnabled g \<Longrightarrow> color < 0 \<Longrightarrow> 0 \<le> mUniqueNumberFloodFilling g \<Longrightarrow>
   doFloodFill depth g x y passability color =
   doFloodFill depth (g\<lparr>mUniqueNumberFloodFilling := mUniqueNumberFloodFilling g + 1\<rparr>) x y
     passability (mUniqueNumberFloodFilling g + 1)"
  by (cases depth) (simp_all add: nextUniqueNumberFloodFilling_def)


lemma floodFill_step:
  assumes inv: "partitioned g done" and t: "inGrid g t" "colorOf g t = - 1"
    and d: "nat (mMapSizeX g * mMapSizeY g) < depth"
  shows "\<exists>k g'. doFloodFill depth g (fst t) (snd t) walkableTile (- 1) = Some (k, g') \<and>
           partitioned g' (insert t done) \<and> sameLayout g g'"
proof -
  define c where "c = mUniqueNumberFloodFilling g + 1"
  define g1 where "g1 = g\<lparr>mUniqueNumberFloodFilling := c\<rparr>"
  note cnt = partitioned_counter[OF inv] and en = partitioned_enabled[OF inv]
  have c1: "1 \<le> c" using cnt by (simp add: c_def)
  have l1: "sameLayout g g1" by (simp add: sameLayout_def g1_def)
  have col1: "colorOf g1 a = colorOf g a" for a by (simp add: colorOf_def g1_def)
  have en1: "floodFillEnabled g1" using en by (simp add: g1_def)
  have fresh: "colorOf g a \<noteq> c" if "inGrid g a" for a
    using partitioned_colored[OF inv that] c1 by (cases "colorOf g a = - 1") (auto simp: c_def)
  have "card (uncolored c g1) \<le> nat (mMapSizeX g1 * mMapSizeY g1)" by (rule card_uncolored)
  with d have cd: "card (uncolored c g1) < depth" by (simp add: g1_def)
  have nc: "colorOf g1 (fst t, snd t) \<noteq> c" using t(2) c1 by (simp add: col1)
  have c0: "0 \<le> c" using c1 by simp
  from doFloodFill_floods[OF en1 c0 nc cd, of walkableTile] obtain k g' where
    kg: "doFloodFill depth g1 (fst t) (snd t) walkableTile c = Some (k, g') \<and>
         floods c g1 {(fst t, snd t)} g' \<and>
         (walkableTileAt g1 (fst t, snd t) \<longrightarrow> colorOf g' (fst t, snd t) = c)"
    by (elim exE) (rule that)
  from kg have r: "doFloodFill depth g1 (fst t) (snd t) walkableTile c = Some (k, g')"
    by (rule conjunct1)
  from kg have f: "floods c g1 {t} g'" by simp
  from kg have ts: "walkableTileAt g1 t \<longrightarrow> colorOf g' t = c" by simp
  have res: "doFloodFill depth g (fst t) (snd t) walkableTile (- 1) = Some (k, g')"
    using doFloodFill_fresh[OF en _ cnt, of "- 1" depth "fst t" "snd t" walkableTile] r
    by (simp add: g1_def c_def)
  note sg = floods_sameGrid[OF f]
  have lay: "sameLayout g g'" by (rule sameLayout_trans[OF l1 sameGrid_layout[OF sg]])
  have cnt': "mUniqueNumberFloodFilling g' = c" using sg by (simp add: sameGrid_def g1_def)
  have en': "floodFillEnabled g'" using sg en1 by (simp add: sameGrid_def)
  have F1: "colorOf g' a = colorOf g a \<or> (colorOf g' a = c \<and> walkableReachable g t a)" for a
    using floods_color[OF f, of a] by (auto simp: col1 sameLayout_reachable[OF l1])
  have F2: "colorOf g a = - 1" if "walkableReachable g t a" for a
  proof (rule ccontr)
    assume "colorOf g a \<noteq> - 1"
    with partitioned_reachable[OF inv reachable_sym[OF that]] t(2) show False by simp
  qed
  have F3: "walkableReachable g t a \<Longrightarrow> colorOf g' a = c" for a
  proof (induction rule: walkableReachable.induct)
    case here
    with ts show ?case by (simp add: sameLayout_walkable[OF l1])
  next
    case (step b n)
    from reachable_walkable[OF step.hyps(1)] have "inGrid g b" by (blast intro: walkable_inGrid)
    from fresh[OF this] have "colorOf g1 b \<noteq> c" by (simp add: col1)
    from floods_closed[OF f step.IH this, of n] step.hyps(2,3) show ?case
      by (simp add: sameLayout_walkable[OF l1] sameLayout_neighbors[OF l1])
  qed
  have F4: "walkableReachable g t a" if "colorOf g' a = c" "inGrid g a" for a
    using F1[of a] fresh[OF that(2)] that(1) by auto
  have "partitioned g' (insert t done)"
  proof (rule partitionedI)
    show "0 \<le> mUniqueNumberFloodFilling g'" using c1 cnt' by simp
    show "floodFillEnabled g'" by (rule en')
    show "walkableTileAt g' a \<and> 0 \<le> colorOf g' a \<and> colorOf g' a \<le> mUniqueNumberFloodFilling g'"
      if "inGrid g' a" "colorOf g' a \<noteq> - 1" for a
    proof -
      from that(1) have ia: "inGrid g a" by (simp add: sameLayout_inGrid[OF lay])
      from F1[of a] show ?thesis
      proof
        assume "colorOf g' a = colorOf g a"
        with partitioned_colored[OF inv ia] that(2) show ?thesis
          by (simp add: sameLayout_walkable[OF lay] cnt' c_def)
      next
        assume h: "colorOf g' a = c \<and> walkableReachable g t a"
        then have "walkableTileAt g a" using reachable_walkable by blast
        with h c1 show ?thesis
          by (simp add: sameLayout_walkable[OF lay] cnt')
      qed
    qed
    show "colorOf g' n = colorOf g' a"
      if "inGrid g' a" "colorOf g' a \<noteq> - 1" "walkableTileAt g' n" "n \<in> set (getAllNeighbors g' a)"
      for a n
    proof -
      from that have ia: "inGrid g a" and wn: "walkableTileAt g n"
        and na: "n \<in> set (getAllNeighbors g a)"
        by (simp_all add: sameLayout_inGrid[OF lay] sameLayout_walkable[OF lay]
            sameLayout_neighbors[OF lay])
      show ?thesis
      proof (cases "colorOf g' a = c")
        case True
        from F4[OF True ia] wn na have "walkableReachable g t n"
          by (blast intro: walkableReachable.step)
        with F3 True show ?thesis by simp
      next
        case False
        with F1[of a] have same: "colorOf g' a = colorOf g a" by simp
        with that(2) partitioned_neighbor[OF inv ia _ wn na]
        have "colorOf g n = colorOf g a" by simp
        moreover from this same that(2) F2[of n] have "\<not> walkableReachable g t n" by auto
        ultimately show ?thesis using F1[of n] same by simp
      qed
    qed
    show "walkableReachable g' a b"
      if "inGrid g' a" "inGrid g' b" "colorOf g' a \<noteq> - 1" "colorOf g' b = colorOf g' a" for a b
    proof -
      from that have ia: "inGrid g a" and ib: "inGrid g b"
        by (simp_all add: sameLayout_inGrid[OF lay])
      have "walkableReachable g a b"
      proof (cases "colorOf g' a = c")
        case True
        with that(4) F4 ia ib have "walkableReachable g t a" "walkableReachable g t b" by simp_all
        then show ?thesis by (blast intro: reachable_trans reachable_sym)
      next
        case False
        with F1[of a] have ea: "colorOf g' a = colorOf g a" by blast
        from False that(4) have "colorOf g' b \<noteq> c" by simp
        with F1[of b] have eb: "colorOf g' b = colorOf g b" by blast
        from that(3) ea have "colorOf g a \<noteq> - 1" by simp
        moreover from that(4) ea eb have "colorOf g b = colorOf g a" by simp
        ultimately show ?thesis by (rule partitioned_same[OF inv ia ib])
      qed
      then show ?thesis by (simp add: sameLayout_reachable[OF lay])
    qed
    show "colorOf g' a \<noteq> - 1" if "a \<in> insert t done" "walkableTileAt g' a" for a
    proof (cases "a = t")
      case True
      with that(2) ts c1 show ?thesis
        by (simp add: sameLayout_walkable[OF lay] sameLayout_walkable[OF l1])
    next
      case False
      with that have "a \<in> done" "walkableTileAt g a" by (simp_all add: sameLayout_walkable[OF lay])
      from partitioned_done[OF inv this] F1[of a] c1 show ?thesis by auto
    qed
  qed
  with res lay show ?thesis by blast
qed


lemma partitioned_insert:
  assumes "partitioned g done" and "colorOf g t \<noteq> - 1"
  shows "partitioned g (insert t done)"
proof (rule partitionedI)
  show "colorOf g a \<noteq> - 1" if "a \<in> insert t done" "walkableTileAt g a" for a
    using that assms(2) partitioned_done[OF assms(1), of a] by (cases "a = t") simp_all
qed (use assms(1) in \<open>blast intro: partitioned_counter partitioned_enabled
      dest: partitioned_colored partitioned_neighbor partitioned_same\<close>)+

lemma floodFillAll_partitioned:
  "partitioned g done \<Longrightarrow> \<forall>t \<in> set ts. inGrid g t \<Longrightarrow>
   nat (mMapSizeX g * mMapSizeY g) < depth \<Longrightarrow>
   \<exists>g'. floodFillAll depth ts g = Some g' \<and> partitioned g' (done \<union> set ts) \<and> sameLayout g g'"
proof (induction ts arbitrary: g "done")
  case Nil
  then show ?case by simp
next
  case (Cons t ts)
  from Cons.prems(2) have it: "inGrid g t" and its: "\<forall>t \<in> set ts. inGrid g t" by simp_all
  show ?case
  proof (cases "colorOf g t = - 1")
    case True
    from floodFill_step[OF Cons.prems(1) it True Cons.prems(3)] obtain k g1 where
      kg: "doFloodFill depth g (fst t) (snd t) walkableTile (- 1) = Some (k, g1) \<and>
           partitioned g1 (insert t done) \<and> sameLayout g g1"
      by (elim exE) (rule that)
    then have l1: "sameLayout g g1" and p1: "partitioned g1 (insert t done)" by simp_all
    from l1 have sz: "mMapSizeX g1 = mMapSizeX g" "mMapSizeY g1 = mMapSizeY g"
      by (simp_all add: sameLayout_def)
    from its have its1: "\<forall>t \<in> set ts. inGrid g1 t" by (simp add: sameLayout_inGrid[OF l1])
    from Cons.prems(3) have d1: "nat (mMapSizeX g1 * mMapSizeY g1) < depth" by (simp add: sz)
    from Cons.IH[OF p1 its1 d1] obtain g' where
      g': "floodFillAll depth ts g1 = Some g' \<and> partitioned g' (insert t done \<union> set ts) \<and>
           sameLayout g1 g'"
      by (elim exE) (rule that)
    from g' l1 have "sameLayout g g'" by (blast intro: sameLayout_trans)
    with g' kg True show ?thesis by (simp add: colorOf_def)
  next
    case False
    from Cons.IH[OF partitioned_insert[OF Cons.prems(1) False] its Cons.prems(3)] False
    show ?thesis by (simp add: colorOf_def)
  qed
qed

lemma reset_fold_tiles:
  "tiles (fold (\<lambda>t g. g\<lparr>tiles := (tiles g)(t := (tiles g t)\<lparr>floodFillColor := - 1\<rparr>)\<rparr>) ts g) a =
     (if a \<in> set ts then (tiles g a)\<lparr>floodFillColor := - 1\<rparr> else tiles g a)"
  by (induction ts arbitrary: g) auto

subsection \<open>The colors after \<^verbatim>\<open>enableFloodFill\<close>\<close>

lemma set_allTiles: "set (allTiles g) = {t. inGrid g t}"
  by (auto simp: allTiles_def inGrid_def)

lemma reset_fold_sizes:
  "mMapSizeX (fold (\<lambda>t g. g\<lparr>tiles := (tiles g)(t := (tiles g t)\<lparr>floodFillColor := - 1\<rparr>)\<rparr>) ts g) = mMapSizeX g \<and>
   mMapSizeY (fold (\<lambda>t g. g\<lparr>tiles := (tiles g)(t := (tiles g t)\<lparr>floodFillColor := - 1\<rparr>)\<rparr>) ts g) = mMapSizeY g \<and>
   mUniqueNumberFloodFilling
     (fold (\<lambda>t g. g\<lparr>tiles := (tiles g)(t := (tiles g t)\<lparr>floodFillColor := - 1\<rparr>)\<rparr>) ts g) =
     mUniqueNumberFloodFilling g"
  by (induction ts arbitrary: g) auto

lemma reset_layout: "sameLayout g ((resetFloodFillColors g)\<lparr>floodFillEnabled := True\<rparr>)"
  by (simp add: sameLayout_def resetFloodFillColors_def reset_fold_sizes reset_fold_tiles)

lemma reset_color:
  "inGrid g t \<Longrightarrow> colorOf ((resetFloodFillColors g)\<lparr>floodFillEnabled := True\<rparr>) t = - 1"
  by (simp add: colorOf_def resetFloodFillColors_def reset_fold_tiles set_allTiles)

lemma reset_partitioned:
  assumes "0 \<le> mUniqueNumberFloodFilling g"
  shows "partitioned ((resetFloodFillColors g)\<lparr>floodFillEnabled := True\<rparr>) {}"
proof -
  let ?g = "(resetFloodFillColors g)\<lparr>floodFillEnabled := True\<rparr>"
  have c: "colorOf ?g t = - 1" if "inGrid ?g t" for t
    using that reset_color[of g t] by (simp add: sameLayout_inGrid[OF reset_layout])
  show ?thesis
  proof (rule partitionedI)
    show "0 \<le> mUniqueNumberFloodFilling ?g"
      using assms by (simp add: resetFloodFillColors_def reset_fold_sizes)
    show "floodFillEnabled ?g" by simp
  qed (use c in \<open>simp_all\<close>)
qed

lemma enableFloodFill_invariant:
  assumes "0 \<le> mUniqueNumberFloodFilling g" and "nat (mMapSizeX g * mMapSizeY g) < depth"
  shows "\<exists>g'. enableFloodFill depth g = Some g' \<and> partitioned g' {t. inGrid g t} \<and>
           sameLayout g g'"
proof -
  let ?g = "(resetFloodFillColors g)\<lparr>floodFillEnabled := True\<rparr>"
  have l: "sameLayout g ?g" by (rule reset_layout)
  then have sz: "mMapSizeX ?g = mMapSizeX g" "mMapSizeY ?g = mMapSizeY g"
    by (simp_all add: sameLayout_def)
  have ts: "\<forall>t \<in> set (allTiles g). inGrid ?g t"
    by (simp add: set_allTiles sameLayout_inGrid[OF l])
  have d: "nat (mMapSizeX ?g * mMapSizeY ?g) < depth" using assms(2) by (simp only: sz)
  from floodFillAll_partitioned[OF reset_partitioned[OF assms(1)] ts d] obtain g' where
    g': "floodFillAll depth (allTiles g) ?g = Some g' \<and>
         partitioned g' ({} \<union> set (allTiles g)) \<and> sameLayout ?g g'"
    by (elim exE) (rule that)
  from g' l have "sameLayout g g'" by (blast intro: sameLayout_trans)
  with g' show ?thesis by (simp add: enableFloodFill_def set_allTiles)
qed

lemma partitioned_pathExists:
  assumes p: "partitioned g' {t. inGrid g t}" and l: "sameLayout g g'"
    and a: "inGrid g a" and b: "inGrid g b"
  shows "walkablePathExists g' (fst a) (snd a) (fst b) (snd b) \<longleftrightarrow>
           walkableReachable g a b \<or> \<not> walkableTileAt g a \<and> \<not> walkableTileAt g b"
proof -
  from a b have a': "inGrid g' a" and b': "inGrid g' b" by (simp_all add: sameLayout_inGrid[OF l])
  from a' b' have w: "walkablePathExists g' (fst a) (snd a) (fst b) (snd b) \<longleftrightarrow>
      colorOf g' a = colorOf g' b"
    by (simp add: walkablePathExists_def getTile_def inGrid_def colorOf_def)
  have col: "colorOf g' t \<noteq> - 1 \<longleftrightarrow> walkableTileAt g t" if "inGrid g t" for t
  proof
    assume "colorOf g' t \<noteq> - 1"
    with partitioned_colored[OF p, of t] that show "walkableTileAt g t"
      by (simp add: sameLayout_inGrid[OF l] sameLayout_walkable[OF l])
  next
    assume "walkableTileAt g t"
    with partitioned_done[OF p, of t] that show "colorOf g' t \<noteq> - 1"
      by (simp add: sameLayout_walkable[OF l])
  qed
  show ?thesis
  proof (cases "walkableTileAt g a")
    case True
    with col[OF a] have ca: "colorOf g' a \<noteq> - 1" by simp
    have "colorOf g' a = colorOf g' b \<longleftrightarrow> walkableReachable g' a b"
    proof
      assume "colorOf g' a = colorOf g' b"
      then have "colorOf g' b = colorOf g' a" by simp
      from partitioned_same[OF p a' b' ca this] show "walkableReachable g' a b" .
    next
      assume "walkableReachable g' a b"
      from partitioned_reachable[OF p this ca] show "colorOf g' a = colorOf g' b" by simp
    qed
    with True w show ?thesis by (simp add: sameLayout_reachable[OF l])
  next
    case False
    with col[OF a] have ca: "colorOf g' a = - 1" by simp
    from False reachable_walkable[of g a b] have "\<not> walkableReachable g a b" by blast
    with False ca col[OF b] w show ?thesis by auto
  qed
qed

lemma partitioned_unassigned:
  assumes p: "partitioned g' {t. inGrid g t}" and l: "sameLayout g g'" and a: "inGrid g a"
  shows "colorOf g' a = - 1 \<longleftrightarrow> \<not> walkableTileAt g a"
proof
  assume "colorOf g' a = - 1"
  with partitioned_done[OF p, of a] a show "\<not> walkableTileAt g a"
    by (auto simp: sameLayout_walkable[OF l])
next
  assume "\<not> walkableTileAt g a"
  with partitioned_colored[OF p, of a] a show "colorOf g' a = - 1"
    by (auto simp add: sameLayout_inGrid[OF l] sameLayout_walkable[OF l])
qed

lemma walledMap_side:
  "walkableReachable walledMap a b \<Longrightarrow> fst a < 2 \<Longrightarrow> fst b < 2"
proof (induction rule: walkableReachable.induct)
  case here
  then show ?case by simp
next
  case (step b c)
  from step.hyps(2) have "fst c \<noteq> 2"
    by (auto simp: walkableTileAt_def walledMap_def rockTile_def)
  with step show ?case by (auto simp: getAllNeighbors_iff)
qed

text \<open>
  Claim C2, as amended. Let the color counter be non-negative and the bound on the depth of
  the recursion be above the number of tiles. Then \<^verbatim>\<open>enableFloodFill\<close> returns, and on
  the map it leaves, for every two tiles \<open>a\<close> and \<open>b\<close> of the grid, \<^verbatim>\<open>pathExists\<close> with
  the walkable class returns true exactly when \<open>b\<close> is walkable-reachable from \<open>a\<close> or
  neither of the two tiles is walkable; and a tile of the grid has the color \<open>- 1\<close> exactly
  when it is not walkable. The second disjunct is the amendment: the check compares the
  colors of the two tiles, and two tiles that are not walkable both have the color \<open>- 1\<close>.
\<close>

theorem enableFloodFill_partition:
  assumes "0 \<le> mUniqueNumberFloodFilling g" and "nat (mMapSizeX g * mMapSizeY g) < depth"
  shows "\<exists>g'. enableFloodFill depth g = Some g' \<and>
           (\<forall>a b. inGrid g a \<and> inGrid g b \<longrightarrow>
              pathExists g' (fst a) (snd a) (fst b) (snd b) walkableTile color =
                Some (g', walkableReachable g a b \<or>
                          \<not> walkableTileAt g a \<and> \<not> walkableTileAt g b)) \<and>
           (\<forall>a. inGrid g a \<longrightarrow>
              (floodFillColor (tiles g' a) = - 1 \<longleftrightarrow> \<not> walkableTileAt g a))"
proof -
  from enableFloodFill_invariant[OF assms] obtain g' where
    e: "enableFloodFill depth g = Some g'" and p: "partitioned g' {t. inGrid g t}"
    and l: "sameLayout g g'"
    by blast
  have "pathExists g' (fst a) (snd a) (fst b) (snd b) walkableTile color =
          Some (g', walkableReachable g a b \<or> \<not> walkableTileAt g a \<and> \<not> walkableTileAt g b)"
    if "inGrid g a" "inGrid g b" for a b
    using partitioned_pathExists[OF p l that] by (simp add: pathExists_def)
  moreover have "floodFillColor (tiles g' a) = - 1 \<longleftrightarrow> \<not> walkableTileAt g a" if "inGrid g a" for a
    using partitioned_unassigned[OF p l that] by (simp add: colorOf_def)
  ultimately show ?thesis using e by blast
qed

text \<open>
  On the grid of five by five tiles whose middle column is rock: the tiles \<open>(0, 0)\<close> and
  \<open>(1, 0)\<close> are connected, \<open>(0, 0)\<close> and \<open>(3, 0)\<close> are on different sides of the rock,
  and the two rock tiles \<open>(2, 0)\<close> and \<open>(2, 4)\<close> are matched by the check.
\<close>

theorem enableFloodFill_partition_witness:
  "0 \<le> mUniqueNumberFloodFilling walledMap \<and>
   nat (mMapSizeX walledMap * mMapSizeY walledMap) < 26 \<and>
   (\<exists>g'. enableFloodFill 26 walledMap = Some g' \<and>
      pathExists g' 0 0 1 0 walkableTile 0 = Some (g', True) \<and>
      pathExists g' 0 0 3 0 walkableTile 0 = Some (g', False) \<and>
      pathExists g' 2 0 2 4 walkableTile 0 = Some (g', True) \<and>
      floodFillColor (tiles g' (2, 0)) = - 1 \<and> floodFillColor (tiles g' (0, 0)) \<noteq> - 1)"
proof -
  have h: "0 \<le> mUniqueNumberFloodFilling walledMap"
    "nat (mMapSizeX walledMap * mMapSizeY walledMap) < 26"
    by (simp_all add: walledMap_def openMap_def emptyMap_def)
  have w: "walkableTileAt walledMap (0, 0)" "walkableTileAt walledMap (1, 0)"
    "\<not> walkableTileAt walledMap (2, 0)" "\<not> walkableTileAt walledMap (2, 4)"
    by (simp_all add: walkableTileAt_def inGrid_def walledMap_def rockTile_def openMap_def
        emptyMap_def)
  have i: "inGrid walledMap (0, 0)" "inGrid walledMap (1, 0)" "inGrid walledMap (3, 0)"
    "inGrid walledMap (2, 0)" "inGrid walledMap (2, 4)"
    by (simp_all add: inGrid_def walledMap_def)
  have r1: "walkableReachable walledMap (0, 0) (1, 0)"
    by (rule walkableReachable.step[OF walkableReachable.here[OF w(1)] w(2)])
       (simp add: getAllNeighbors_iff i)
  have r2: "\<not> walkableReachable walledMap (0, 0) (3, 0)"
    using walledMap_side[of "(0, 0)" "(3, 0)"] by auto
  have r3: "\<not> walkableReachable walledMap (2, 0) (2, 4)"
    using reachable_walkable[of walledMap "(2, 0)" "(2, 4)"] w by blast
  from enableFloodFill_partition[OF h, of 0] obtain g' where
    e: "enableFloodFill 26 walledMap = Some g'"
    and pe: "\<And>a b. inGrid walledMap a \<Longrightarrow> inGrid walledMap b \<Longrightarrow>
       pathExists g' (fst a) (snd a) (fst b) (snd b) walkableTile 0 =
         Some (g', walkableReachable walledMap a b \<or>
                   \<not> walkableTileAt walledMap a \<and> \<not> walkableTileAt walledMap b)"
    and un: "\<And>a. inGrid walledMap a \<Longrightarrow>
       (floodFillColor (tiles g' a) = - 1 \<longleftrightarrow> \<not> walkableTileAt walledMap a)"
    by blast
  from pe[OF i(1) i(2)] r1 have p1: "pathExists g' 0 0 1 0 walkableTile 0 = Some (g', True)"
    by simp
  from pe[OF i(1) i(3)] r2 w(1) have p2: "pathExists g' 0 0 3 0 walkableTile 0 = Some (g', False)"
    by simp
  from pe[OF i(4) i(5)] r3 w(3,4) have p3: "pathExists g' 2 0 2 4 walkableTile 0 = Some (g', True)"
    by simp
  from un[OF i(4)] w(3) have u1: "floodFillColor (tiles g' (2, 0)) = - 1" by simp
  from un[OF i(1)] w(1) have u2: "floodFillColor (tiles g' (0, 0)) \<noteq> - 1" by simp
  from h e p1 p2 p3 u1 u2 show ?thesis by blast
qed

text \<open>
  The claim as the spec states it fails on a grid of two rock tiles: after
  \<^verbatim>\<open>enableFloodFill\<close> both tiles have the color \<open>- 1\<close>, so \<^verbatim>\<open>walkablePathExists\<close> finds
  equal colors and \<^verbatim>\<open>pathExists\<close> returns true, although neither tile is walkable and
  neither is walkable-reachable from the other.
\<close>

theorem enableFloodFill_rock_counterexample:
  "(case enableFloodFill 3 rockMap of
      None \<Rightarrow> False
    | Some g' \<Rightarrow>
        pathExists g' 0 0 1 0 walkableTile 0 = Some (g', True) \<and>
        floodFillColor (tiles g' (0, 0)) = - 1 \<and> floodFillColor (tiles g' (1, 0)) = - 1) \<and>
   getTile rockMap 0 0 = Some (0, 0) \<and> getTile rockMap 1 0 = Some (1, 0) \<and>
   tilePassability (tiles rockMap (0, 0)) = impassableTile \<and>
   tilePassability (tiles rockMap (1, 0)) = impassableTile \<and>
   \<not> walkableReachable rockMap (0, 0) (1, 0)"
proof -
  have "\<not> walkableTileAt rockMap (0, 0)"
    by (simp add: walkableTileAt_def rockMap_def rockTile_def)
  with reachable_walkable[of rockMap "(0, 0)" "(1, 0)"]
  have r: "\<not> walkableReachable rockMap (0, 0) (1, 0)" by blast
  have e: "(case enableFloodFill 3 rockMap of
      None \<Rightarrow> False
    | Some g' \<Rightarrow>
        pathExists g' 0 0 1 0 walkableTile 0 = Some (g', True) \<and>
        floodFillColor (tiles g' (0, 0)) = - 1 \<and> floodFillColor (tiles g' (1, 0)) = - 1)"
    by (simp add: enableFloodFill_def allTiles_def resetFloodFillColors_def
        nextUniqueNumberFloodFilling_def getTile_def pathExists_def walkablePathExists_def
        rockMap_def rockTile_def openMap_def emptyMap_def upto.simps numeral_3_eq_3)
  have t: "getTile rockMap 0 0 = Some (0, 0)" "getTile rockMap 1 0 = Some (1, 0)"
    "tilePassability (tiles rockMap (0, 0)) = impassableTile"
    "tilePassability (tiles rockMap (1, 0)) = impassableTile"
    by (simp_all add: getTile_def rockMap_def rockTile_def)
  from e t r show ?thesis by blast
qed

end
